theory Spec2Isabelle
  imports Complex_Main "HOL-Library.AList"
begin

section \<open>The video placement program (videos.py)\<close>

text \<open>
  A shallow embedding of \<^verbatim>\<open>videos.py\<close>: \<^verbatim>\<open>read_instance\<close>, \<^verbatim>\<open>build_model\<close>,
  \<^verbatim>\<open>write_solution\<close> and \<^verbatim>\<open>main\<close>.

  Python dictionaries keep insertion order, and the program iterates over them, so a
  dictionary is an association list in insertion order: storing under a key that is
  present replaces the value in place, storing under a new key appends
  (\<open>AList.update\<close>). Python integers are unbounded: \<open>int\<close>. An exception is a value
  \<open>Inl err\<close> of the result type.
\<close>

subsection \<open>Python values\<close>

text \<open>The exceptions the program can raise from its own statements.\<close>

datatype error = ValueError | AssertionError | IndexError | KeyError

text \<open>\<^verbatim>\<open>range(n)\<close>: empty when \<open>n \<le> 0\<close>.\<close>

definition py_range :: "int \<Rightarrow> int list" where
  "py_range n = map int [0..<nat n]"

text \<open>\<^verbatim>\<open>xs[i]\<close> on a list: an index from \<open>-len\<close> to \<open>-1\<close> counts from the end, anything
  else outside \<open>[0, len)\<close> raises IndexError.\<close>

definition py_index :: "'a list \<Rightarrow> int \<Rightarrow> error + 'a" where
  "py_index xs i =
     (if 0 \<le> i \<and> i < int (length xs) then Inr (xs ! nat i)
      else if i < 0 \<and> - int (length xs) \<le> i then Inr (xs ! nat (int (length xs) + i))
      else Inl IndexError)"

text \<open>\<^verbatim>\<open>d[k]\<close> on a dictionary: KeyError when the key is absent.\<close>

definition dict_get :: "('k \<times> 'v) list \<Rightarrow> 'k \<Rightarrow> error + 'v" where
  "dict_get d k = (case map_of d k of None \<Rightarrow> Inl KeyError | Some x \<Rightarrow> Inr x)"

text \<open>A comprehension or generator whose body can raise: the first exception ends it.\<close>

fun map_err :: "('a \<Rightarrow> error + 'b) \<Rightarrow> 'a list \<Rightarrow> error + 'b list" where
  "map_err f [] = Inr []"
| "map_err f (x # xs) =
     (case f x of
        Inl err \<Rightarrow> Inl err
      | Inr y \<Rightarrow> (case map_err f xs of Inl err \<Rightarrow> Inl err | Inr ys \<Rightarrow> Inr (y # ys)))"

subsection \<open>The instance\<close>

record endpoint =
  dc_latency :: int
  cache_latencies :: "(int \<times> int) list"

text \<open>The dictionary \<^verbatim>\<open>read_instance\<close> returns. \<open>requests\<close> is keyed by \<open>(e_id, v_id)\<close>.\<close>

record data =
  V :: int
  E :: int
  R :: int
  C :: int
  X :: int
  video_sizes :: "int list"
  endpoints :: "endpoint list"
  requests :: "((int \<times> int) \<times> int) list"

subsection \<open>read\_instance\<close>

text \<open>
  The file is the list of its lines, each line the list of the integers
  \<^verbatim>\<open>map(int, line.split())\<close> yields; splitting at whitespace and the conversion of
  a token by \<^verbatim>\<open>int\<close> are below this model. \<^verbatim>\<open>f.readline()\<close> at the end of the file
  returns the empty string, hence no tokens.
\<close>

fun readline :: "int list list \<Rightarrow> int list \<times> int list list" where
  "readline [] = ([], [])"
| "readline (l # ls) = (l, ls)"

text \<open>The inner loop \<^verbatim>\<open>for _ in range(K)\<close>; unpacking a line into two names raises
  ValueError unless it has exactly two tokens.\<close>

fun read_cache_latencies ::
  "nat \<Rightarrow> int list list \<Rightarrow> (int \<times> int) list \<Rightarrow> error + ((int \<times> int) list \<times> int list list)" where
  "read_cache_latencies 0 f cl = Inr (cl, f)"
| "read_cache_latencies (Suc k) f cl =
     (case fst (readline f) of
        [c_id, lat] \<Rightarrow> read_cache_latencies k (snd (readline f)) (AList.update c_id lat cl)
      | _ \<Rightarrow> Inl ValueError)"

text \<open>The loop \<^verbatim>\<open>for e in range(E)\<close>.\<close>

fun read_endpoints ::
  "nat \<Rightarrow> int list list \<Rightarrow> endpoint list \<Rightarrow> error + (endpoint list \<times> int list list)" where
  "read_endpoints 0 f eps = Inr (eps, f)"
| "read_endpoints (Suc k) f eps =
     (case fst (readline f) of
        [dc, K] \<Rightarrow>
          (case read_cache_latencies (nat K) (snd (readline f)) [] of
             Inl err \<Rightarrow> Inl err
           | Inr (cl, f') \<Rightarrow>
               read_endpoints k f' (eps @ [\<lparr>dc_latency = dc, cache_latencies = cl\<rparr>]))
      | _ \<Rightarrow> Inl ValueError)"

text \<open>\<^verbatim>\<open>requests.get(key, 0)\<close>.\<close>

definition get0 :: "('k \<times> int) list \<Rightarrow> 'k \<Rightarrow> int" where
  "get0 d k = (case map_of d k of None \<Rightarrow> 0 | Some n \<Rightarrow> n)"

text \<open>The loop \<^verbatim>\<open>for _ in range(R)\<close>.\<close>

fun read_requests ::
  "nat \<Rightarrow> int list list \<Rightarrow> ((int \<times> int) \<times> int) list \<Rightarrow> error + ((int \<times> int) \<times> int) list" where
  "read_requests 0 f rq = Inr rq"
| "read_requests (Suc k) f rq =
     (case fst (readline f) of
        [v_id, e_id, n_req] \<Rightarrow>
          read_requests k (snd (readline f))
            (AList.update (e_id, v_id) (get0 rq (e_id, v_id) + n_req) rq)
      | _ \<Rightarrow> Inl ValueError)"

definition read_instance :: "int list list \<Rightarrow> error + data" where
  "read_instance f =
     (case fst (readline f) of
        [nV, nE, nR, nC, nX] \<Rightarrow>
          (let f1 = snd (readline f); sizes = fst (readline f1); f2 = snd (readline f1) in
           if int (length sizes) \<noteq> nV then Inl AssertionError
           else
             (case read_endpoints (nat nE) f2 [] of
                Inl err \<Rightarrow> Inl err
              | Inr (eps, f3) \<Rightarrow>
                  (case read_requests (nat nR) f3 [] of
                     Inl err \<Rightarrow> Inl err
                   | Inr rq \<Rightarrow>
                       Inr \<lparr>V = nV, E = nE, R = nR, C = nC, X = nX,
                            video_sizes = sizes, endpoints = eps, requests = rq\<rparr>)))
      | _ \<Rightarrow> Inl ValueError)"

subsection \<open>build\_model\<close>

text \<open>
  What the program hands to the solver library. A variable is named by its key in the
  \<^verbatim>\<open>y\<close> or \<^verbatim>\<open>z\<close> tupledict. A linear expression is the list of its terms, coefficient
  and variable, in the order \<^verbatim>\<open>quicksum\<close> receives them. The three \<^verbatim>\<open>addConstr\<close>
  calls give the three kinds of constraint; the indices of a constraint's name
  (\<^verbatim>\<open>cap_cache_{c}\<close>, \<^verbatim>\<open>link_e{e}_v{v}_c{c}\<close>, \<^verbatim>\<open>unique_e{e}_v{v}\<close>) come first.
\<close>

datatype var = Y "int \<times> int" | Z "int \<times> int \<times> int"

type_synonym linexpr = "(int \<times> var) list"

datatype constr =
    is_cap: Cap_cache (cap_name: int) (cap_lhs: linexpr) (cap_rhs: int)
  | is_link: Link (link_name: "int \<times> int \<times> int") (link_lhs: var) (link_rhs: var)
  | is_unique: Unique (unique_name: "int \<times> int") (unique_lhs: linexpr) (unique_rhs: int)

datatype objsense = MINIMIZE | MAXIMIZE

record model =
  y_vars :: "var list"
  z_vars :: "var list"
  constrs :: "constr list"
  objective :: linexpr
  sense :: objsense

text \<open>The three accumulators of the pruning loop.\<close>

record zstate =
  z_keys :: "(int \<times> int \<times> int) list"
  z_gain :: "((int \<times> int \<times> int) \<times> int) list"
  ev_to_caches :: "((int \<times> int) \<times> int list) list"

text \<open>\<^verbatim>\<open>d.setdefault(k, []).append(c)\<close>.\<close>

definition setdefault_append :: "'k \<Rightarrow> 'c \<Rightarrow> ('k \<times> 'c list) list \<Rightarrow> ('k \<times> 'c list) list" where
  "setdefault_append k c d =
     (case map_of d k of
        None \<Rightarrow> d @ [(k, [c])]
      | Some cs \<Rightarrow> AList.update k (cs @ [c]) d)"

text \<open>The inner loop \<^verbatim>\<open>for c, lat_ec in ep["cache_latencies"].items()\<close>.\<close>

fun scan_caches :: "int \<Rightarrow> int \<Rightarrow> int \<Rightarrow> int \<Rightarrow> (int \<times> int) list \<Rightarrow> zstate \<Rightarrow> zstate" where
  "scan_caches e v n_req dc_lat [] s = s"
| "scan_caches e v n_req dc_lat ((c, lat_ec) # cl) s =
     (let save = dc_lat - lat_ec in
      if save \<le> 0 then scan_caches e v n_req dc_lat cl s
      else scan_caches e v n_req dc_lat cl
             (s\<lparr>z_keys := z_keys s @ [(e, v, c)],
                z_gain := AList.update (e, v, c) (n_req * save) (z_gain s),
                ev_to_caches := setdefault_append (e, v) c (ev_to_caches s)\<rparr>))"

text \<open>The outer loop \<^verbatim>\<open>for (e, v), n_req in requests.items()\<close>; \<^verbatim>\<open>endpoints[e]\<close> can raise.\<close>

fun scan_requests ::
  "endpoint list \<Rightarrow> ((int \<times> int) \<times> int) list \<Rightarrow> zstate \<Rightarrow> error + zstate" where
  "scan_requests eps [] s = Inr s"
| "scan_requests eps (((e, v), n_req) # rq) s =
     (case py_index eps e of
        Inl err \<Rightarrow> Inl err
      | Inr ep \<Rightarrow>
          scan_requests eps rq (scan_caches e v n_req (dc_latency ep) (cache_latencies ep) s))"

text \<open>\<^verbatim>\<open>y[v, c]\<close> and \<^verbatim>\<open>z[e, v, c]\<close>: a tupledict holds one variable per key it was
  created with and raises KeyError on any other key.\<close>

definition y_get :: "var list \<Rightarrow> int \<times> int \<Rightarrow> error + var" where
  "y_get y k = (if Y k \<in> set y then Inr (Y k) else Inl KeyError)"

definition z_get :: "var list \<Rightarrow> int \<times> int \<times> int \<Rightarrow> error + var" where
  "z_get z k = (if Z k \<in> set z then Inr (Z k) else Inl KeyError)"

text \<open>One term \<^verbatim>\<open>video_sizes[v] * y[v, c]\<close>.\<close>

definition cap_term :: "int list \<Rightarrow> var list \<Rightarrow> int \<Rightarrow> int \<Rightarrow> error + (int \<times> var)" where
  "cap_term sizes y c v =
     (case py_index sizes v of
        Inl err \<Rightarrow> Inl err
      | Inr sz \<Rightarrow> (case y_get y (v, c) of Inl err \<Rightarrow> Inl err | Inr yv \<Rightarrow> Inr (sz, yv)))"

text \<open>The constraint \<^verbatim>\<open>quicksum(video_sizes[v] * y[v, c] for v in videos) <= X\<close>.\<close>

definition cap_constr :: "data \<Rightarrow> var list \<Rightarrow> int \<Rightarrow> error + constr" where
  "cap_constr d y c =
     (case map_err (cap_term (video_sizes d) y c) (py_range (V d)) of
        Inl err \<Rightarrow> Inl err
      | Inr ts \<Rightarrow> Inr (Cap_cache c ts (X d)))"

text \<open>The constraint \<^verbatim>\<open>z[e, v, c] <= y[v, c]\<close>.\<close>

definition link_constr :: "var list \<Rightarrow> var list \<Rightarrow> int \<times> int \<times> int \<Rightarrow> error + constr" where
  "link_constr y z k =
     (case k of (e, v, c) \<Rightarrow>
        (case z_get z (e, v, c) of
           Inl err \<Rightarrow> Inl err
         | Inr zv \<Rightarrow> (case y_get y (v, c) of Inl err \<Rightarrow> Inl err | Inr yv \<Rightarrow> Inr (Link k zv yv))))"

text \<open>The constraint \<^verbatim>\<open>quicksum(z[e, v, c] for c in cache_list) <= 1\<close>.\<close>

definition unique_term :: "var list \<Rightarrow> int \<times> int \<Rightarrow> int \<Rightarrow> error + (int \<times> var)" where
  "unique_term z ev c =
     (case z_get z (fst ev, snd ev, c) of Inl err \<Rightarrow> Inl err | Inr zv \<Rightarrow> Inr (1, zv))"

definition unique_constr :: "var list \<Rightarrow> (int \<times> int) \<times> int list \<Rightarrow> error + constr" where
  "unique_constr z p =
     (case map_err (unique_term z (fst p)) (snd p) of
        Inl err \<Rightarrow> Inl err
      | Inr ts \<Rightarrow> Inr (Unique (fst p) ts 1))"

text \<open>One term \<^verbatim>\<open>z_gain[k] * z[k]\<close> of the objective.\<close>

definition obj_term ::
  "((int \<times> int \<times> int) \<times> int) list \<Rightarrow> var list \<Rightarrow> int \<times> int \<times> int \<Rightarrow> error + (int \<times> var)" where
  "obj_term zg z k =
     (case dict_get zg k of
        Inl err \<Rightarrow> Inl err
      | Inr g \<Rightarrow> (case z_get z k of Inl err \<Rightarrow> Inl err | Inr zv \<Rightarrow> Inr (g, zv)))"

text \<open>
  \<^verbatim>\<open>build_model\<close>, statement by statement: the \<^verbatim>\<open>y\<close> variables for
  \<^verbatim>\<open>addVars(V, C)\<close>, the pruning loop, the \<^verbatim>\<open>z\<close> variables, the capacity, linking and
  single-source constraints in the order they are added, the objective. The solver
  parameters and the printing are left out. The \<^verbatim>\<open>y\<close> the source returns beside the
  model is \<open>y_vars\<close>.
\<close>

definition build_model :: "data \<Rightarrow> error + model" where
  "build_model d =
     (let y = map Y (List.product (py_range (V d)) (py_range (C d))) in
      case scan_requests (endpoints d) (requests d)
             \<lparr>z_keys = [], z_gain = [], ev_to_caches = []\<rparr> of
        Inl err \<Rightarrow> Inl err
      | Inr s \<Rightarrow>
      (let z = map Z (z_keys s) in
       case map_err (cap_constr d y) (py_range (C d)) of
        Inl err \<Rightarrow> Inl err
      | Inr caps \<Rightarrow>
      (case map_err (link_constr y z) (z_keys s) of
        Inl err \<Rightarrow> Inl err
      | Inr links \<Rightarrow>
      (case map_err (unique_constr z) (ev_to_caches s) of
        Inl err \<Rightarrow> Inl err
      | Inr uniques \<Rightarrow>
      (case map_err (obj_term (z_gain s) z) (z_keys s) of
        Inl err \<Rightarrow> Inl err
      | Inr obj \<Rightarrow>
          Inr \<lparr>y_vars = y, z_vars = z,
               constrs = caps @ links @ uniques,
               objective = obj, sense = MAXIMIZE\<rparr>)))))"

subsection \<open>The solver's side\<close>

text \<open>
  The solver is outside the program. What \<^verbatim>\<open>main\<close> and \<^verbatim>\<open>write_solution\<close> read
  from it after \<^verbatim>\<open>model.optimize()\<close>: the number of solutions found
  (\<^verbatim>\<open>model.SolCount\<close>) and the value of each variable (\<^verbatim>\<open>.X\<close>). The values are
  taken as real numbers; only their comparison with \<open>0.5\<close> is used.
\<close>

record solution =
  SolCount :: int
  Xval :: "var \<Rightarrow> real"

text \<open>
  The meaning of the constraints for the solver: an assignment gives every variable
  a value, a linear expression is the sum of its terms, and each constraint is the
  inequality the \<^verbatim>\<open>addConstr\<close> call wrote. A feasible assignment gives every
  variable of the model (all are \<^verbatim>\<open>GRB.BINARY\<close>) the value 0 or 1 and satisfies
  every constraint.
\<close>

definition lin_val :: "(var \<Rightarrow> real) \<Rightarrow> linexpr \<Rightarrow> real" where
  "lin_val a ts = sum_list (map (\<lambda>t. real_of_int (fst t) * a (snd t)) ts)"

fun holds :: "(var \<Rightarrow> real) \<Rightarrow> constr \<Rightarrow> bool" where
  "holds a (Cap_cache c ts b) = (lin_val a ts \<le> real_of_int b)"
| "holds a (Link k zv yv) = (a zv \<le> a yv)"
| "holds a (Unique ev ts b) = (lin_val a ts \<le> real_of_int b)"

definition feasible :: "model \<Rightarrow> (var \<Rightarrow> real) \<Rightarrow> bool" where
  "feasible m a \<longleftrightarrow>
     list_all (\<lambda>x. a x = 0 \<or> a x = 1) (y_vars m @ z_vars m) \<and> list_all (holds a) (constrs m)"

text \<open>The variables a constraint mentions.\<close>

fun constr_vars :: "constr \<Rightarrow> var set" where
  "constr_vars (Cap_cache c ts b) = snd ` set ts"
| "constr_vars (Link k zv yv) = {zv, yv}"
| "constr_vars (Unique ev ts b) = snd ` set ts"

subsection \<open>write\_solution\<close>

text \<open>\<^verbatim>\<open>str\<close> of an integer: decimal digits, a minus sign when negative.\<close>

definition digit_char :: "nat \<Rightarrow> char" where
  "digit_char n = ''0123456789'' ! n"

function str_nat :: "nat \<Rightarrow> string" where
  "str_nat n = (if n < 10 then [digit_char n] else str_nat (n div 10) @ [digit_char (n mod 10)])"
  by pat_completeness auto
termination
  by (relation "measure id") auto

declare str_nat.simps [simp del]

definition str_int :: "int \<Rightarrow> string" where
  "str_int i = (if i < 0 then CHR ''-'' # str_nat (nat (- i)) else str_nat (nat i))"

text \<open>\<^verbatim>\<open>sep.join(parts)\<close>.\<close>

fun join :: "string \<Rightarrow> string list \<Rightarrow> string" where
  "join sep [] = []"
| "join sep [p] = p"
| "join sep (p # q # ps) = p @ sep @ join sep (q # ps)"

text \<open>A comprehension with a condition that can raise.\<close>

fun filter_err :: "('a \<Rightarrow> error + bool) \<Rightarrow> 'a list \<Rightarrow> error + 'a list" where
  "filter_err p [] = Inr []"
| "filter_err p (x # xs) =
     (case p x of
        Inl err \<Rightarrow> Inl err
      | Inr b \<Rightarrow>
          (case filter_err p xs of
             Inl err \<Rightarrow> Inl err
           | Inr ys \<Rightarrow> Inr (if b then x # ys else ys)))"

text \<open>The condition \<^verbatim>\<open>y[v, c].X > 0.5\<close>.\<close>

definition stored :: "var list \<Rightarrow> (var \<Rightarrow> real) \<Rightarrow> int \<Rightarrow> int \<Rightarrow> error + bool" where
  "stored y xval c v =
     (case y_get y (v, c) of Inl err \<Rightarrow> Inl err | Inr yv \<Rightarrow> Inr (xval yv > 0.5))"

text \<open>The loop \<^verbatim>\<open>for c in caches\<close> that fills \<^verbatim>\<open>cache_to_videos\<close>.\<close>

fun collect_caches ::
  "var list \<Rightarrow> (var \<Rightarrow> real) \<Rightarrow> int \<Rightarrow> int list \<Rightarrow> (int \<times> int list) list
     \<Rightarrow> error + (int \<times> int list) list" where
  "collect_caches y xval nV [] ctv = Inr ctv"
| "collect_caches y xval nV (c # cs) ctv =
     (case filter_err (stored y xval c) (py_range nV) of
        Inl err \<Rightarrow> Inl err
      | Inr vids \<Rightarrow>
          collect_caches y xval nV cs (if vids \<noteq> [] then AList.update c vids ctv else ctv))"

definition cache_to_videos :: "var list \<Rightarrow> (var \<Rightarrow> real) \<Rightarrow> data \<Rightarrow> error + (int \<times> int list) list" where
  "cache_to_videos y xval d = collect_caches y xval (V d) (py_range (C d)) []"

text \<open>One line \<^verbatim>\<open>str(c) + " " + " ".join(str(v) for v in vids) + "\n"\<close>.\<close>

definition cache_line :: "int \<times> int list \<Rightarrow> string" where
  "cache_line p = str_int (fst p) @ '' '' @ join '' '' (map str_int (snd p)) @ ''\<newline>''"

text \<open>\<^verbatim>\<open>write_solution\<close> returns the text written to the file at \<^verbatim>\<open>path_out\<close>. The file
  is opened after \<^verbatim>\<open>cache_to_videos\<close> is complete.\<close>

definition write_solution :: "var list \<Rightarrow> (var \<Rightarrow> real) \<Rightarrow> data \<Rightarrow> error + string" where
  "write_solution y xval d =
     (case cache_to_videos y xval d of
        Inl err \<Rightarrow> Inl err
      | Inr ctv \<Rightarrow>
          Inr (str_int (int (length ctv)) @ ''\<newline>'' @ concat (map cache_line ctv)))"

subsection \<open>main\<close>

text \<open>
  The files a run leaves: \<^verbatim>\<open>videos.mps\<close>, the model as it is written before
  optimizing, and \<^verbatim>\<open>videos.out\<close>, absent when it is not written. The solver is a
  parameter: a function from the model to what it reports.
\<close>

record run =
  videos_mps :: model
  videos_out :: "string option"

definition main :: "(model \<Rightarrow> solution) \<Rightarrow> int list list \<Rightarrow> error + run" where
  "main solver f =
     (case read_instance f of
        Inl err \<Rightarrow> Inl err
      | Inr d \<Rightarrow>
          (case build_model d of
             Inl err \<Rightarrow> Inl err
           | Inr m \<Rightarrow>
               (let sol = solver m in
                if SolCount sol = 0 then Inr \<lparr>videos_mps = m, videos_out = None\<rparr>
                else
                  (case write_solution (y_vars m) (Xval sol) d of
                     Inl err \<Rightarrow> Inl err
                   | Inr out \<Rightarrow> Inr \<lparr>videos_mps = m, videos_out = Some out\<rparr>))))"

subsection \<open>What the pruning loop keeps\<close>

text \<open>
  Notions used to state what the loops of \<^verbatim>\<open>build_model\<close> compute; the lemmas below
  relate them to the loops. \<open>kept dc cl\<close> are the entries of a \<^verbatim>\<open>cache_latencies\<close>
  dictionary that pass the test \<^verbatim>\<open>save > 0\<close>, \<open>savings ep\<close> pairs each cache kept at
  an endpoint with its \<^verbatim>\<open>save\<close>, and \<open>req_keys\<close>, \<open>req_gains\<close>, \<open>req_caches\<close> are
  what one request adds to \<^verbatim>\<open>z_keys\<close>, \<^verbatim>\<open>z_gain\<close> and \<^verbatim>\<open>ev_to_caches\<close>.
  \<open>cap_of\<close>, \<open>link_of\<close> and \<open>unique_of\<close> are the constraints as the three loops
  write them when no lookup fails.
\<close>

definition kept :: "int \<Rightarrow> (int \<times> int) list \<Rightarrow> (int \<times> int) list" where
  "kept dc cl = filter (\<lambda>p. 0 < dc - snd p) cl"

definition savings :: "endpoint \<Rightarrow> (int \<times> int) list" where
  "savings ep =
     map (\<lambda>p. (fst p, dc_latency ep - snd p)) (kept (dc_latency ep) (cache_latencies ep))"

definition req_savings :: "endpoint list \<Rightarrow> (int \<times> int) \<times> int \<Rightarrow> (int \<times> int) list" where
  "req_savings eps r = (case py_index eps (fst (fst r)) of Inl err \<Rightarrow> [] | Inr ep \<Rightarrow> savings ep)"

definition req_keys :: "endpoint list \<Rightarrow> (int \<times> int) \<times> int \<Rightarrow> (int \<times> int \<times> int) list" where
  "req_keys eps r = map (\<lambda>q. (fst (fst r), snd (fst r), fst q)) (req_savings eps r)"

definition req_gains :: "endpoint list \<Rightarrow> (int \<times> int) \<times> int \<Rightarrow> ((int \<times> int \<times> int) \<times> int) list" where
  "req_gains eps r =
     map (\<lambda>q. ((fst (fst r), snd (fst r), fst q), snd r * snd q)) (req_savings eps r)"

definition req_caches :: "endpoint list \<Rightarrow> (int \<times> int) \<times> int \<Rightarrow> ((int \<times> int) \<times> int list) list" where
  "req_caches eps r =
     (if req_savings eps r = [] then [] else [(fst r, map fst (req_savings eps r))])"

definition cap_of :: "data \<Rightarrow> int \<Rightarrow> constr" where
  "cap_of d c = Cap_cache c (map (\<lambda>v. (video_sizes d ! nat v, Y (v, c))) (py_range (V d))) (X d)"

definition link_of :: "int \<times> int \<times> int \<Rightarrow> constr" where
  "link_of k = Link k (Z k) (Y (snd k))"

definition unique_of :: "(int \<times> int) \<times> int list \<Rightarrow> constr" where
  "unique_of p = Unique (fst p) (map (\<lambda>c. (1, Z (fst (fst p), snd (fst p), c))) (snd p)) 1"

subsection \<open>A small instance\<close>

text \<open>Three videos, two endpoints, two caches; the request for video 0 at endpoint 0
  comes in two records, cache 1 is slower than the data centre for endpoint 0, and one
  request count is negative.\<close>

definition example_file :: "int list list" where
  "example_file =
     [[3, 2, 4, 2, 10], [5, 6, 7],
      [10, 2], [0, 2], [1, 12],
      [20, 1], [1, 3],
      [0, 0, 3], [1, 1, -2], [0, 0, 4], [2, 1, 5]]"

definition example_data :: data where
  "example_data =
     \<lparr>V = 3, E = 2, R = 4, C = 2, X = 10, video_sizes = [5, 6, 7],
      endpoints = [\<lparr>dc_latency = 10, cache_latencies = [(0, 2), (1, 12)]\<rparr>,
                   \<lparr>dc_latency = 20, cache_latencies = [(1, 3)]\<rparr>],
      requests = [((0, 0), 7), ((1, 1), -2), ((1, 2), 5)]\<rparr>"

definition example_model :: model where
  "example_model =
     \<lparr>y_vars = [Y (0, 0), Y (0, 1), Y (1, 0), Y (1, 1), Y (2, 0), Y (2, 1)],
      z_vars = [Z (0, 0, 0), Z (1, 1, 1), Z (1, 2, 1)],
      constrs =
        [Cap_cache 0 [(5, Y (0, 0)), (6, Y (1, 0)), (7, Y (2, 0))] 10,
         Cap_cache 1 [(5, Y (0, 1)), (6, Y (1, 1)), (7, Y (2, 1))] 10,
         Link (0, 0, 0) (Z (0, 0, 0)) (Y (0, 0)),
         Link (1, 1, 1) (Z (1, 1, 1)) (Y (1, 1)),
         Link (1, 2, 1) (Z (1, 2, 1)) (Y (2, 1)),
         Unique (0, 0) [(1, Z (0, 0, 0))] 1,
         Unique (1, 1) [(1, Z (1, 1, 1))] 1,
         Unique (1, 2) [(1, Z (1, 2, 1))] 1],
      objective = [(56, Z (0, 0, 0)), (- 34, Z (1, 1, 1)), (85, Z (1, 2, 1))],
      sense = MAXIMIZE\<rparr>"

subsection \<open>The layout of a file\<close>

text \<open>The lines of one endpoint block and of one request record, as the input format
  lays them out; used to say that a file has the expected layout.\<close>

definition endpoint_lines :: "int \<times> (int \<times> int) list \<Rightarrow> int list list" where
  "endpoint_lines p = [fst p, int (length (snd p))] # map (\<lambda>q. [fst q, snd q]) (snd p)"

definition request_line :: "int \<times> int \<times> int \<Rightarrow> int list" where
  "request_line r = [fst r, fst (snd r), snd (snd r)]"

subsection \<open>Solver reports for the examples\<close>

text \<open>Values and solver reports used as examples: the value 1 for \<open>y[0,0]\<close> and
  \<open>y[2,0]\<close> and 0 for every other variable; a solver that reports one solution with
  every variable at 0; a solver that reports no solution.\<close>

definition example_values :: "var \<Rightarrow> real" where
  "example_values x = (if x = Y (0, 0) \<or> x = Y (2, 0) then 1 else 0)"

definition all_zero :: "var \<Rightarrow> real" where
  "all_zero x = 0"

definition solver_all_zero :: "model \<Rightarrow> solution" where
  "solver_all_zero m = \<lparr>SolCount = 1, Xval = all_zero\<rparr>"

definition solver_no_solution :: "model \<Rightarrow> solution" where
  "solver_no_solution m = \<lparr>SolCount = 0, Xval = all_zero\<rparr>"

section \<open>Properties\<close>

subsection \<open>The pruning loop\<close>

lemma kept_simps [simp]:
  "kept dc [] = []"
  "kept dc ((c, lat) # cl) = (if 0 < dc - lat then (c, lat) # kept dc cl else kept dc cl)"
  by (simp_all add: kept_def)

lemma scan_caches_z_keys:
  "z_keys (scan_caches e v n dc cl s) = z_keys s @ map (\<lambda>p. (e, v, fst p)) (kept dc cl)"
  by (induction cl arbitrary: s) (auto simp: Let_def)

lemma update_fresh: "k \<notin> fst ` set al \<Longrightarrow> AList.update k x al = al @ [(k, x)]"
  by (induction al) auto

lemma update_last_entry: "k \<notin> fst ` set al \<Longrightarrow> AList.update k x (al @ [(k, w)]) = al @ [(k, x)]"
  by (induction al) auto

lemma scan_caches_z_gain:
  "distinct (map fst cl) \<Longrightarrow> \<forall>c \<in> fst ` set cl. (e, v, c) \<notin> fst ` set (z_gain s) \<Longrightarrow>
   z_gain (scan_caches e v n dc cl s) =
     z_gain s @ map (\<lambda>p. ((e, v, fst p), n * (dc - snd p))) (kept dc cl)"
proof (induction cl arbitrary: s)
  case Nil
  then show ?case by simp
next
  case (Cons p cl)
  obtain c lat where p: "p = (c, lat)" by (cases p)
  show ?case
  proof (cases "0 < dc - lat")
    case False
    with Cons p show ?thesis by (simp add: Let_def)
  next
    case True
    let ?s = "s\<lparr>z_keys := z_keys s @ [(e, v, c)],
                z_gain := AList.update (e, v, c) (n * (dc - lat)) (z_gain s),
                ev_to_caches := setdefault_append (e, v) c (ev_to_caches s)\<rparr>"
    from Cons.prems p have fresh: "(e, v, c) \<notin> fst ` set (z_gain s)" by simp
    then have zg: "z_gain ?s = z_gain s @ [((e, v, c), n * (dc - lat))]"
      by (simp add: update_fresh)
    from Cons.prems p have "\<forall>c' \<in> fst ` set cl. (e, v, c') \<notin> fst ` set (z_gain ?s)"
      by (auto simp: zg)
    moreover from Cons.prems have "distinct (map fst cl)" by simp
    ultimately have "z_gain (scan_caches e v n dc cl ?s) =
        z_gain ?s @ map (\<lambda>p. ((e, v, fst p), n * (dc - snd p))) (kept dc cl)"
      by (rule Cons.IH[rotated])
    with True p zg show ?thesis by (simp add: Let_def)
  qed
qed

lemma scan_caches_ev_present:
  "ev_to_caches s = al @ [((e, v), cs)] \<Longrightarrow> (e, v) \<notin> fst ` set al \<Longrightarrow>
   ev_to_caches (scan_caches e v n dc cl s) = al @ [((e, v), cs @ map fst (kept dc cl))]"
proof (induction cl arbitrary: s cs)
  case Nil
  then show ?case by simp
next
  case (Cons p cl)
  obtain c lat where p: "p = (c, lat)" by (cases p)
  show ?case
  proof (cases "0 < dc - lat")
    case False
    with Cons p show ?thesis by (simp add: Let_def)
  next
    case True
    let ?s = "s\<lparr>z_keys := z_keys s @ [(e, v, c)],
                z_gain := AList.update (e, v, c) (n * (dc - lat)) (z_gain s),
                ev_to_caches := setdefault_append (e, v) c (ev_to_caches s)\<rparr>"
    from Cons.prems have "map_of (ev_to_caches s) (e, v) = Some cs"
      by (simp add: map_add_Some_iff map_of_eq_None_iff)
    with Cons.prems have "ev_to_caches ?s = al @ [((e, v), cs @ [c])]"
      by (simp add: setdefault_append_def update_last_entry)
    from Cons.IH[OF this Cons.prems(2)] True p show ?thesis by (simp add: Let_def)
  qed
qed

lemma scan_caches_ev_absent:
  "(e, v) \<notin> fst ` set (ev_to_caches s) \<Longrightarrow>
   ev_to_caches (scan_caches e v n dc cl s) =
     ev_to_caches s @ (if kept dc cl = [] then [] else [((e, v), map fst (kept dc cl))])"
proof (induction cl arbitrary: s)
  case Nil
  then show ?case by simp
next
  case (Cons p cl)
  obtain c lat where p: "p = (c, lat)" by (cases p)
  show ?case
  proof (cases "0 < dc - lat")
    case False
    with Cons p show ?thesis by (simp add: Let_def)
  next
    case True
    let ?s = "s\<lparr>z_keys := z_keys s @ [(e, v, c)],
                z_gain := AList.update (e, v, c) (n * (dc - lat)) (z_gain s),
                ev_to_caches := setdefault_append (e, v) c (ev_to_caches s)\<rparr>"
    from Cons.prems have "map_of (ev_to_caches s) (e, v) = None"
      by (simp add: map_of_eq_None_iff)
    then have "ev_to_caches ?s = ev_to_caches s @ [((e, v), [c])]"
      by (simp add: setdefault_append_def)
    from scan_caches_ev_present[OF this Cons.prems, of n dc cl] True p
    show ?thesis by (simp add: Let_def)
  qed
qed

lemma py_index_mem: "py_index xs i = Inr x \<Longrightarrow> x \<in> set xs"
  by (auto simp: py_index_def split: if_splits)

lemma scan_caches_keys_savings:
  "z_keys (scan_caches e v n (dc_latency ep) (cache_latencies ep) s) =
     z_keys s @ map (\<lambda>q. (e, v, fst q)) (savings ep)"
  by (simp add: scan_caches_z_keys savings_def o_def)

lemma scan_caches_gain_savings:
  "distinct (map fst (cache_latencies ep)) \<Longrightarrow>
   \<forall>c \<in> fst ` set (cache_latencies ep). (e, v, c) \<notin> fst ` set (z_gain s) \<Longrightarrow>
   z_gain (scan_caches e v n (dc_latency ep) (cache_latencies ep) s) =
     z_gain s @ map (\<lambda>q. ((e, v, fst q), n * snd q)) (savings ep)"
  by (simp add: scan_caches_z_gain savings_def o_def)

lemma scan_caches_ev_savings:
  "(e, v) \<notin> fst ` set (ev_to_caches s) \<Longrightarrow>
   ev_to_caches (scan_caches e v n (dc_latency ep) (cache_latencies ep) s) =
     ev_to_caches s @ (if savings ep = [] then [] else [((e, v), map fst (savings ep))])"
  by (simp add: scan_caches_ev_absent savings_def o_def)

lemma scan_requests_z_keys:
  "scan_requests eps rq s = Inr s' \<Longrightarrow> z_keys s' = z_keys s @ concat (map (req_keys eps) rq)"
proof (induction rq arbitrary: s)
  case Nil
  then show ?case by simp
next
  case (Cons r rq)
  obtain e v n where r: "r = ((e, v), n)" by (cases r) auto
  from Cons.prems r obtain ep where ep: "py_index eps e = Inr ep"
    and rest: "scan_requests eps rq (scan_caches e v n (dc_latency ep) (cache_latencies ep) s) = Inr s'"
    by (auto split: sum.splits)
  from Cons.IH[OF rest] show ?case
    by (simp add: r ep req_keys_def req_savings_def scan_caches_keys_savings)
qed

lemma scan_requests_z_gain:
  assumes "scan_requests eps rq s = Inr s'"
    and "distinct (map fst rq)"
    and "\<forall>ep \<in> set eps. distinct (map fst (cache_latencies ep))"
    and "\<forall>k \<in> fst ` set (z_gain s). (fst k, fst (snd k)) \<notin> fst ` set rq"
  shows "z_gain s' = z_gain s @ concat (map (req_gains eps) rq)"
  using assms
proof (induction rq arbitrary: s)
  case Nil
  then show ?case by simp
next
  case (Cons r rq)
  obtain e v n where r: "r = ((e, v), n)" by (cases r) auto
  from Cons.prems(1) r obtain ep where ep: "py_index eps e = Inr ep"
    and rest: "scan_requests eps rq (scan_caches e v n (dc_latency ep) (cache_latencies ep) s) = Inr s'"
    by (auto split: sum.splits)
  let ?s = "scan_caches e v n (dc_latency ep) (cache_latencies ep) s"
  from ep Cons.prems(3) have dist: "distinct (map fst (cache_latencies ep))"
    by (auto dest: py_index_mem)
  from Cons.prems(4) r have fresh: "\<forall>c \<in> fst ` set (cache_latencies ep). (e, v, c) \<notin> fst ` set (z_gain s)"
    by fastforce
  have zg: "z_gain ?s = z_gain s @ map (\<lambda>q. ((e, v, fst q), n * snd q)) (savings ep)"
    by (rule scan_caches_gain_savings[OF dist fresh])
  from Cons.prems(2) r have ev_new: "(e, v) \<notin> fst ` set rq" and dist_rq: "distinct (map fst rq)"
    by auto
  from Cons.prems(4) ev_new have "\<forall>k \<in> fst ` set (z_gain ?s). (fst k, fst (snd k)) \<notin> fst ` set rq"
    by (force simp: zg)
  from Cons.IH[OF rest dist_rq Cons.prems(3) this] show ?case
    by (simp add: zg r ep req_gains_def req_savings_def)
qed

lemma scan_requests_ev:
  assumes "scan_requests eps rq s = Inr s'"
    and "distinct (map fst rq)"
    and "fst ` set (ev_to_caches s) \<inter> fst ` set rq = {}"
  shows "ev_to_caches s' = ev_to_caches s @ concat (map (req_caches eps) rq)"
  using assms
proof (induction rq arbitrary: s)
  case Nil
  then show ?case by simp
next
  case (Cons r rq)
  obtain e v n where r: "r = ((e, v), n)" by (cases r) auto
  from Cons.prems(1) r obtain ep where ep: "py_index eps e = Inr ep"
    and rest: "scan_requests eps rq (scan_caches e v n (dc_latency ep) (cache_latencies ep) s) = Inr s'"
    by (auto split: sum.splits)
  let ?s = "scan_caches e v n (dc_latency ep) (cache_latencies ep) s"
  from Cons.prems(3) r have "(e, v) \<notin> fst ` set (ev_to_caches s)" by auto
  then have ev: "ev_to_caches ?s =
      ev_to_caches s @ (if savings ep = [] then [] else [((e, v), map fst (savings ep))])"
    by (rule scan_caches_ev_savings)
  from Cons.prems(2) r have ev_new: "(e, v) \<notin> fst ` set rq" and dist_rq: "distinct (map fst rq)"
    by auto
  from Cons.prems(3) ev_new have "fst ` set (ev_to_caches ?s) \<inter> fst ` set rq = {}"
    by (auto simp: ev)
  from Cons.IH[OF rest dist_rq this] show ?case
    by (simp add: ev r ep req_caches_def req_savings_def)
qed

lemma map_err_Inr: "\<forall>x \<in> set xs. f x = Inr (g x) \<Longrightarrow> map_err f xs = Inr (map g xs)"
  by (induction xs) auto

lemma map_err_all_Inr: "map_err f xs = Inr ys \<Longrightarrow> x \<in> set xs \<Longrightarrow> \<exists>y. f x = Inr y"
  by (induction xs arbitrary: ys) (auto split: sum.splits)

lemma map_err_eq_map:
  "map_err f xs = Inr ys \<Longrightarrow> (\<And>x y. x \<in> set xs \<Longrightarrow> f x = Inr y \<Longrightarrow> y = g x) \<Longrightarrow> ys = map g xs"
proof (induction xs arbitrary: ys)
  case Nil
  then show ?case by simp
next
  case (Cons x xs)
  from Cons.prems(1) obtain y ys' where fx: "f x = Inr y" and rest: "map_err f xs = Inr ys'"
    and ys: "ys = y # ys'"
    by (auto split: sum.splits)
  from Cons.prems(2)[of x y] fx have "y = g x" by simp
  moreover from Cons.IH[OF rest] Cons.prems(2) have "ys' = map g xs" by simp
  ultimately show ?case using ys by simp
qed

lemma py_range_mem: "v \<in> set (py_range n) \<longleftrightarrow> 0 \<le> v \<and> v < n"
  by (auto simp: py_range_def image_iff intro: bexI[of _ "nat v"])

lemma cap_term_Inr: "cap_term sizes y c v = Inr t \<Longrightarrow> 0 \<le> v \<Longrightarrow>
  t = (sizes ! nat v, Y (v, c)) \<and> v < int (length sizes) \<and> Y (v, c) \<in> set y"
  by (auto simp: cap_term_def py_index_def y_get_def split: sum.splits if_splits)

lemma cap_constr_Inr:
  assumes "cap_constr d y c = Inr k"
  shows "k = Cap_cache c (map (\<lambda>v. (video_sizes d ! nat v, Y (v, c))) (py_range (V d))) (X d)"
proof -
  from assms obtain ts where ts: "map_err (cap_term (video_sizes d) y c) (py_range (V d)) = Inr ts"
    and k: "k = Cap_cache c ts (X d)"
    by (auto simp: cap_constr_def split: sum.splits)
  have "ts = map (\<lambda>v. (video_sizes d ! nat v, Y (v, c))) (py_range (V d))"
    by (rule map_err_eq_map[OF ts]) (auto simp: py_range_mem dest: cap_term_Inr)
  with k show ?thesis by simp
qed

lemma link_constr_Inr: "link_constr y z k = Inr l \<Longrightarrow>
  l = Link k (Z k) (Y (snd k)) \<and> Z k \<in> set z \<and> Y (snd k) \<in> set y"
  by (auto simp: link_constr_def y_get_def z_get_def split: sum.splits if_splits prod.splits)

lemma unique_term_Inr: "unique_term z ev c = Inr t \<Longrightarrow> t = (1, Z (fst ev, snd ev, c))"
  by (auto simp: unique_term_def z_get_def split: sum.splits if_splits)

lemma unique_constr_Inr:
  assumes "unique_constr z p = Inr k"
  shows "k = Unique (fst p) (map (\<lambda>c. (1, Z (fst (fst p), snd (fst p), c))) (snd p)) 1"
proof -
  from assms obtain ts where ts: "map_err (unique_term z (fst p)) (snd p) = Inr ts"
    and k: "k = Unique (fst p) ts 1"
    by (auto simp: unique_constr_def split: sum.splits)
  have "ts = map (\<lambda>c. (1, Z (fst (fst p), snd (fst p), c))) (snd p)"
    by (rule map_err_eq_map[OF ts]) (auto dest: unique_term_Inr)
  with k show ?thesis by simp
qed

lemma obj_term_Inr: "obj_term zg z k = Inr t \<Longrightarrow> map_of zg k = Some (fst t) \<and> snd t = Z k"
  by (auto simp: obj_term_def dict_get_def z_get_def split: sum.splits if_splits option.splits)

lemma build_model_parts:
  assumes "build_model d = Inr m"
  obtains s where
    "scan_requests (endpoints d) (requests d) \<lparr>z_keys = [], z_gain = [], ev_to_caches = []\<rparr> = Inr s"
    "y_vars m = map Y (List.product (py_range (V d)) (py_range (C d)))"
    "z_vars m = map Z (z_keys s)"
    "constrs m = map (cap_of d) (py_range (C d)) @ map link_of (z_keys s) @ map unique_of (ev_to_caches s)"
    "objective m = map (\<lambda>k. (the (map_of (z_gain s) k), Z k)) (z_keys s)"
    "sense m = MAXIMIZE"
    "\<forall>k \<in> set (z_keys s). Y (snd k) \<in> set (y_vars m)"
proof -
  let ?y = "map Y (List.product (py_range (V d)) (py_range (C d)))"
  from assms obtain s caps links uniques obj where
    s: "scan_requests (endpoints d) (requests d) \<lparr>z_keys = [], z_gain = [], ev_to_caches = []\<rparr> = Inr s"
    and caps: "map_err (cap_constr d ?y) (py_range (C d)) = Inr caps"
    and links: "map_err (link_constr ?y (map Z (z_keys s))) (z_keys s) = Inr links"
    and uniques: "map_err (unique_constr (map Z (z_keys s))) (ev_to_caches s) = Inr uniques"
    and obj: "map_err (obj_term (z_gain s) (map Z (z_keys s))) (z_keys s) = Inr obj"
    and m: "m = \<lparr>y_vars = ?y, z_vars = map Z (z_keys s), constrs = caps @ links @ uniques,
                 objective = obj, sense = MAXIMIZE\<rparr>"
    by (auto simp: build_model_def Let_def split: sum.splits)
  have c1: "caps = map (cap_of d) (py_range (C d))"
    by (rule map_err_eq_map[OF caps]) (simp add: cap_of_def cap_constr_Inr)
  have c2: "links = map link_of (z_keys s)"
    by (rule map_err_eq_map[OF links]) (auto simp: link_of_def dest: link_constr_Inr)
  have c3: "uniques = map unique_of (ev_to_caches s)"
    by (rule map_err_eq_map[OF uniques]) (simp add: unique_of_def unique_constr_Inr)
  have c4: "obj = map (\<lambda>k. (the (map_of (z_gain s) k), Z k)) (z_keys s)"
    by (rule map_err_eq_map[OF obj]) (auto dest: obj_term_Inr simp: prod_eq_iff)
  have c5: "\<forall>k \<in> set (z_keys s). Y (snd k) \<in> set ?y"
    using map_err_all_Inr[OF links] link_constr_Inr by blast
  have c6: "\<forall>k \<in> set (z_keys s). Y (snd k) \<in> set (y_vars m)"
    using c5 by (simp only: m model.simps)
  show thesis
    by (rule that[OF s _ _ _ _ _ c6]) (simp_all add: m c1 c2 c3 c4)
qed

lemma savings_mem:
  "(c, sv) \<in> set (savings ep) \<longleftrightarrow>
     (\<exists>lat. (c, lat) \<in> set (cache_latencies ep) \<and> sv = dc_latency ep - lat \<and> 0 < sv)"
  by (auto simp: savings_def kept_def image_iff)

lemma map_fst_savings:
  "map fst (savings ep) = map fst (kept (dc_latency ep) (cache_latencies ep))"
  by (simp add: savings_def o_def)

lemma distinct_fst_savings:
  "distinct (map fst (cache_latencies ep)) \<Longrightarrow> distinct (map fst (savings ep))"
  by (simp add: map_fst_savings kept_def distinct_map_filter)

lemma req_keys_proj: "k \<in> set (req_keys eps r) \<Longrightarrow> (fst k, fst (snd k)) = fst r"
  by (auto simp: req_keys_def)

lemma distinct_one_req_keys:
  assumes "\<forall>ep \<in> set eps. distinct (map fst (cache_latencies ep))"
  shows "distinct (req_keys eps r)"
proof (cases "py_index eps (fst (fst r))")
  case (Inl err)
  then show ?thesis by (simp add: req_keys_def req_savings_def)
next
  case (Inr ep)
  with assms have "distinct (map fst (savings ep))"
    by (auto dest: py_index_mem intro: distinct_fst_savings)
  then have "distinct (map (\<lambda>q. (fst (fst r), snd (fst r), fst q)) (savings ep))"
    by (simp add: distinct_map inj_on_def)
  with Inr show ?thesis by (simp add: req_keys_def req_savings_def)
qed

lemma distinct_req_keys:
  assumes "distinct (map fst rq)" and "\<forall>ep \<in> set eps. distinct (map fst (cache_latencies ep))"
  shows "distinct (concat (map (req_keys eps) rq))"
  using assms(1)
proof (induction rq)
  case Nil
  then show ?case by simp
next
  case (Cons r rq)
  have "set (req_keys eps r) \<inter> set (concat (map (req_keys eps) rq)) = {}"
  proof (rule ccontr)
    assume "set (req_keys eps r) \<inter> set (concat (map (req_keys eps) rq)) \<noteq> {}"
    then obtain k r' where "k \<in> set (req_keys eps r)" "r' \<in> set rq" "k \<in> set (req_keys eps r')"
      by auto
    then have "fst r = fst r'" and "r' \<in> set rq"
      by (auto dest!: req_keys_proj)
    with Cons.prems show False by (auto simp: image_iff)
  qed
  with Cons distinct_one_req_keys[OF assms(2)] show ?case by simp
qed

lemma map_fst_req_gains: "map fst (req_gains eps r) = req_keys eps r"
  by (simp add: req_gains_def req_keys_def o_def)

lemma map_fst_concat_req_gains:
  "map fst (concat (map (req_gains eps) rq)) = concat (map (req_keys eps) rq)"
  by (simp add: map_concat o_def map_fst_req_gains)

lemma lookup_all:
  assumes "distinct (map fst al)"
  shows "map (\<lambda>k. (the (map_of al k), f k)) (map fst al) = map (\<lambda>p. (snd p, f (fst p))) al"
proof -
  have "\<forall>p \<in> set al. map_of al (fst p) = Some (snd p)"
    using assms by (auto intro: map_of_is_SomeI)
  then show ?thesis by (simp add: o_def)
qed

lemma build_model_char:
  assumes build: "build_model d = Inr m"
    and rq: "distinct (map fst (requests d))"
    and cl: "\<forall>ep \<in> set (endpoints d). distinct (map fst (cache_latencies ep))"
  shows "z_vars m = map Z (concat (map (req_keys (endpoints d)) (requests d)))"
    and "constrs m = map (cap_of d) (py_range (C d))
           @ map link_of (concat (map (req_keys (endpoints d)) (requests d)))
           @ map unique_of (concat (map (req_caches (endpoints d)) (requests d)))"
    and "objective m = map (\<lambda>p. (snd p, Z (fst p))) (concat (map (req_gains (endpoints d)) (requests d)))"
proof -
  from build obtain s where
    s: "scan_requests (endpoints d) (requests d) \<lparr>z_keys = [], z_gain = [], ev_to_caches = []\<rparr> = Inr s"
    and zv: "z_vars m = map Z (z_keys s)"
    and cs: "constrs m = map (cap_of d) (py_range (C d)) @ map link_of (z_keys s) @ map unique_of (ev_to_caches s)"
    and ob: "objective m = map (\<lambda>k. (the (map_of (z_gain s) k), Z k)) (z_keys s)"
    by (rule build_model_parts)
  have zk: "z_keys s = concat (map (req_keys (endpoints d)) (requests d))"
    using scan_requests_z_keys[OF s] by simp
  have zg: "z_gain s = concat (map (req_gains (endpoints d)) (requests d))"
    using scan_requests_z_gain[OF s rq cl] by simp
  have ev: "ev_to_caches s = concat (map (req_caches (endpoints d)) (requests d))"
    using scan_requests_ev[OF s rq] by simp
  show "z_vars m = map Z (concat (map (req_keys (endpoints d)) (requests d)))"
    by (simp add: zv zk)
  show "constrs m = map (cap_of d) (py_range (C d))
           @ map link_of (concat (map (req_keys (endpoints d)) (requests d)))
           @ map unique_of (concat (map (req_caches (endpoints d)) (requests d)))"
    by (simp add: cs zk ev)
  have "distinct (map fst (z_gain s))"
    using distinct_req_keys[OF rq cl] by (simp only: zg map_fst_concat_req_gains)
  from lookup_all[OF this, of Z]
  show "objective m = map (\<lambda>p. (snd p, Z (fst p))) (concat (map (req_gains (endpoints d)) (requests d)))"
    by (simp add: ob zk zg map_fst_concat_req_gains[symmetric] del: map_concat)
qed

subsection \<open>The small instance, evaluated\<close>

lemma py_range_simps: "py_range 0 = []" "py_range 1 = [0]" "py_range 2 = [0, 1]" "py_range 3 = [0, 1, 2]"
  by (simp_all add: py_range_def upt_rec)

lemma read_example: "read_instance example_file = Inr example_data"
  by (simp add: read_instance_def example_file_def example_data_def get0_def eval_nat_numeral)

lemma build_example: "build_model example_data = Inr example_model"
  by (simp add: build_model_def example_data_def example_model_def py_range_simps py_index_def
      setdefault_append_def cap_constr_def cap_term_def y_get_def z_get_def link_constr_def
      unique_constr_def unique_term_def obj_term_def dict_get_def)

subsection \<open>The y variables and the capacity constraints\<close>

lemma build_model_sizes:
  assumes "build_model d = Inr m" "0 < C d"
  shows "V d \<le> int (length (video_sizes d))"
proof (cases "0 < V d")
  case False
  then show ?thesis by simp
next
  case True
  let ?y = "map Y (List.product (py_range (V d)) (py_range (C d)))"
  from assms(1) obtain caps where caps: "map_err (cap_constr d ?y) (py_range (C d)) = Inr caps"
    by (auto simp: build_model_def Let_def split: sum.splits)
  from assms(2) have "0 \<in> set (py_range (C d))" by (simp add: py_range_mem)
  from map_err_all_Inr[OF caps this] obtain ts
    where ts: "map_err (cap_term (video_sizes d) ?y 0) (py_range (V d)) = Inr ts"
    by (auto simp: cap_constr_def split: sum.splits)
  from True have "V d - 1 \<in> set (py_range (V d))" by (simp add: py_range_mem)
  from map_err_all_Inr[OF ts this] obtain t
    where "cap_term (video_sizes d) ?y 0 (V d - 1) = Inr t" by auto
  from cap_term_Inr[OF this] True show ?thesis by simp
qed

lemma distinct_py_range: "distinct (py_range n)"
  by (simp add: py_range_def distinct_map inj_on_def)

text \<open>
  C2. Whenever \<^verbatim>\<open>build_model\<close> returns a model, its \<open>y\<close> variables are exactly one
  \<open>y[v,c]\<close> for every \<open>v\<close> in \<open>[0,V)\<close> and \<open>c\<close> in \<open>[0,C)\<close>, without repetition,
  \<open>V * C\<close> of them, and its capacity constraints are exactly one per cache \<open>c\<close> in
  \<open>[0,C)\<close>, in order: the sum over all \<open>v\<close> in \<open>[0,V)\<close> of \<open>video_sizes[v] * y[v,c]\<close>,
  bounded by \<open>X\<close>. Nothing in it depends on the requests.
\<close>

theorem y_vars_and_capacity:
  assumes "build_model d = Inr m"
  shows "y_vars m = map Y (List.product (py_range (V d)) (py_range (C d)))
    \<and> distinct (y_vars m)
    \<and> length (y_vars m) = nat (V d) * nat (C d)
    \<and> (\<forall>v c. Y (v, c) \<in> set (y_vars m) \<longleftrightarrow> 0 \<le> v \<and> v < V d \<and> 0 \<le> c \<and> c < C d)
    \<and> filter is_cap (constrs m) =
        map (\<lambda>c. Cap_cache c (map (\<lambda>v. (video_sizes d ! nat v, Y (v, c))) (py_range (V d))) (X d))
          (py_range (C d))
    \<and> (0 < C d \<longrightarrow> V d \<le> int (length (video_sizes d)))"
proof -
  from assms obtain s where
    "scan_requests (endpoints d) (requests d) \<lparr>z_keys = [], z_gain = [], ev_to_caches = []\<rparr> = Inr s"
    and yv: "y_vars m = map Y (List.product (py_range (V d)) (py_range (C d)))"
    and "z_vars m = map Z (z_keys s)"
    and cs: "constrs m = map (cap_of d) (py_range (C d)) @ map link_of (z_keys s) @ map unique_of (ev_to_caches s)"
    by (rule build_model_parts)
  have d: "distinct (y_vars m)"
    by (simp add: yv distinct_map distinct_product distinct_py_range inj_on_def)
  have l: "length (y_vars m) = nat (V d) * nat (C d)"
    by (simp add: yv length_product py_range_def)
  have mem: "\<forall>v c. Y (v, c) \<in> set (y_vars m) \<longleftrightarrow> 0 \<le> v \<and> v < V d \<and> 0 \<le> c \<and> c < C d"
    by (auto simp: yv py_range_mem)
  have f1: "filter is_cap (map (cap_of d) cs) = map (cap_of d) cs" for cs
    by (induction cs) (simp_all add: cap_of_def)
  have f2: "filter is_cap (map link_of ks) = []" for ks
    by (induction ks) (simp_all add: link_of_def)
  have f3: "filter is_cap (map unique_of ps) = []" for ps
    by (induction ps) (simp_all add: unique_of_def)
  have caps: "filter is_cap (constrs m) =
        map (\<lambda>c. Cap_cache c (map (\<lambda>v. (video_sizes d ! nat v, Y (v, c))) (py_range (V d))) (X d))
          (py_range (C d))"
    by (simp add: cs f1 f2 f3) (simp add: cap_of_def)
  from yv d l mem caps build_model_sizes[OF assms] show ?thesis by blast
qed

theorem y_vars_and_capacity_witness:
  "build_model example_data = Inr example_model
   \<and> length (y_vars example_model) = 6
   \<and> filter is_cap (constrs example_model) =
       [Cap_cache 0 [(5, Y (0, 0)), (6, Y (1, 0)), (7, Y (2, 0))] 10,
        Cap_cache 1 [(5, Y (0, 1)), (6, Y (1, 1)), (7, Y (2, 1))] 10]"
  using y_vars_and_capacity[OF build_example] build_example
  by (simp add: example_data_def py_range_simps)

subsection \<open>The z variables and the objective\<close>

lemma req_gains_mem:
  "(k, g) \<in> set (req_gains eps r) \<longleftrightarrow>
     (\<exists>ep c lat. py_index eps (fst (fst r)) = Inr ep \<and> (c, lat) \<in> set (cache_latencies ep)
        \<and> 0 < dc_latency ep - lat \<and> k = (fst (fst r), snd (fst r), c)
        \<and> g = snd r * (dc_latency ep - lat))"
proof (cases "py_index eps (fst (fst r))")
  case (Inl err)
  then show ?thesis by (simp add: req_gains_def req_savings_def)
next
  case (Inr ep)
  have "(k, g) \<in> set (req_gains eps r) \<longleftrightarrow>
      (\<exists>c sv. (c, sv) \<in> set (savings ep) \<and> k = (fst (fst r), snd (fst r), c) \<and> g = snd r * sv)"
    unfolding req_gains_def req_savings_def Inr by (simp add: image_iff) force
  also have "\<dots> \<longleftrightarrow> (\<exists>c lat. (c, lat) \<in> set (cache_latencies ep)
        \<and> 0 < dc_latency ep - lat \<and> k = (fst (fst r), snd (fst r), c)
        \<and> g = snd r * (dc_latency ep - lat))"
    unfolding savings_mem by blast
  finally show ?thesis by (simp add: Inr)
qed

lemma req_keys_mem:
  "k \<in> set (req_keys eps r) \<longleftrightarrow>
     (\<exists>ep c lat. py_index eps (fst (fst r)) = Inr ep \<and> (c, lat) \<in> set (cache_latencies ep)
        \<and> 0 < dc_latency ep - lat \<and> k = (fst (fst r), snd (fst r), c))"
proof -
  have "k \<in> set (req_keys eps r) \<longleftrightarrow> (\<exists>g. (k, g) \<in> set (req_gains eps r))"
    by (force simp: map_fst_req_gains[symmetric] simp del: map_fst_req_gains)
  then show ?thesis by (simp add: req_gains_mem) blast
qed

lemma obj_terms_mem: "(g, Z k) \<in> set (map (\<lambda>p. (snd p, Z (fst p))) al) \<longleftrightarrow> (k, g) \<in> set al"
  by force

lemma distinct_lookup: "distinct (map fst al) \<Longrightarrow> (k, x) \<in> set al \<Longrightarrow> (k, y) \<in> set al \<Longrightarrow> x = y"
  by (metis map_of_is_SomeI option.inject)

lemma req_caches_mem:
  "p \<in> set (req_caches eps r) \<Longrightarrow> fst p = fst r \<and> snd p \<noteq> [] \<and>
     (\<forall>c \<in> set (snd p). (fst (fst r), snd (fst r), c) \<in> set (req_keys eps r))"
  by (auto simp: req_caches_def req_keys_def image_iff split: if_splits)

lemma concat_req_gains_mem:
  "(k, g) \<in> set (concat (map (req_gains eps) rq)) \<longleftrightarrow>
      (\<exists>e' v' n' ep' c' lat'. ((e', v'), n') \<in> set rq \<and> py_index eps e' = Inr ep'
         \<and> (c', lat') \<in> set (cache_latencies ep') \<and> 0 < dc_latency ep' - lat'
         \<and> k = (e', v', c') \<and> g = n' * (dc_latency ep' - lat'))" (is "?l \<longleftrightarrow> ?r")
proof
  assume ?l
  then obtain r where r: "r \<in> set rq" and "(k, g) \<in> set (req_gains eps r)"
    unfolding set_concat set_map by blast
  then obtain ep' c' lat' where "py_index eps (fst (fst r)) = Inr ep'"
    "(c', lat') \<in> set (cache_latencies ep')" "0 < dc_latency ep' - lat'"
    "k = (fst (fst r), snd (fst r), c')" "g = snd r * (dc_latency ep' - lat')"
    unfolding req_gains_mem by blast
  moreover from r have "((fst (fst r), snd (fst r)), snd r) \<in> set rq" by simp
  ultimately show ?r by blast
next
  assume ?r
  then obtain e' v' n' ep' c' lat' where r: "((e', v'), n') \<in> set rq"
    and "py_index eps e' = Inr ep'" "(c', lat') \<in> set (cache_latencies ep')"
    "0 < dc_latency ep' - lat'" "k = (e', v', c')" "g = n' * (dc_latency ep' - lat')"
    by blast
  then have "(k, g) \<in> set (req_gains eps ((e', v'), n'))"
    unfolding req_gains_mem fst_conv snd_conv by blast
  with r show ?l unfolding set_concat set_map by blast
qed

lemma build_model_constr_vars:
  assumes build: "build_model d = Inr m"
    and rq: "distinct (map fst (requests d))"
    and cl: "\<forall>ep \<in> set (endpoints d). distinct (map fst (cache_latencies ep))"
    and k: "k \<in> set (constrs m)" and x: "Z t \<in> constr_vars k"
  shows "Z t \<in> set (z_vars m)"
proof -
  note ch = build_model_char[OF build rq cl]
  let ?ks = "concat (map (req_keys (endpoints d)) (requests d))"
  from k have "k \<in> cap_of d ` set (py_range (C d)) \<or> k \<in> link_of ` set ?ks
      \<or> k \<in> unique_of ` (\<Union>r \<in> set (requests d). set (req_caches (endpoints d) r))"
    unfolding ch(2) by auto
  then consider
    (cap) c where "k = cap_of d c"
    | (link) t' where "t' \<in> set ?ks" "k = link_of t'"
    | (unique) p r where "r \<in> set (requests d)" "p \<in> set (req_caches (endpoints d) r)" "k = unique_of p"
    by blast
  then show ?thesis
  proof cases
    case cap
    with x show ?thesis by (auto simp: cap_of_def)
  next
    case link
    with x have "t = t'" by (simp add: link_of_def)
    with link ch(1) show ?thesis by simp
  next
    case unique
    from x unique(3) obtain c where c: "c \<in> set (snd p)" and t: "t = (fst (fst p), snd (fst p), c)"
      by (auto simp: unique_of_def)
    from req_caches_mem[OF unique(2)] c t have "t \<in> set (req_keys (endpoints d) r)"
      by auto
    with unique(1) ch(1) show ?thesis by auto
  qed
qed

text \<open>
  C1. Whenever \<^verbatim>\<open>build_model\<close> returns a model: for a request key \<open>(e,v)\<close> with count
  \<open>n_req\<close> and a cache \<open>c\<close> with latency \<open>lat_ec\<close> in the \<^verbatim>\<open>cache_latencies\<close> of
  \<^verbatim>\<open>endpoints[e]\<close>, the variable \<open>z[e,v,c]\<close> exists exactly when
  \<open>save = dc_latency - lat_ec\<close> is positive; then its only objective coefficient is
  \<open>n_req * save\<close>; when \<open>save \<le> 0\<close> the triple occurs in no objective term and in no
  constraint. The objective is maximised, has one term per \<open>z\<close> variable, in the order
  of the variables, which are pairwise different, and its terms are exactly
  \<open>n_req * save\<close> times \<open>z[e,v,c]\<close> for the triples with \<open>save > 0\<close>.
\<close>

theorem pruning_and_objective:
  assumes build: "build_model d = Inr m"
    and rq: "distinct (map fst (requests d))"
    and cl: "\<forall>ep \<in> set (endpoints d). distinct (map fst (cache_latencies ep))"
    and req: "((e, v), n_req) \<in> set (requests d)"
    and ep: "py_index (endpoints d) e = Inr ep"
    and c: "(c, lat_ec) \<in> set (cache_latencies ep)"
  shows "(Z (e, v, c) \<in> set (z_vars m) \<longleftrightarrow> 0 < dc_latency ep - lat_ec)
    \<and> (0 < dc_latency ep - lat_ec \<longrightarrow>
         (\<forall>g. (g, Z (e, v, c)) \<in> set (objective m) \<longleftrightarrow> g = n_req * (dc_latency ep - lat_ec)))
    \<and> (dc_latency ep - lat_ec \<le> 0 \<longrightarrow>
         Z (e, v, c) \<notin> snd ` set (objective m) \<and> (\<forall>k \<in> set (constrs m). Z (e, v, c) \<notin> constr_vars k))
    \<and> map snd (objective m) = z_vars m \<and> distinct (z_vars m) \<and> sense m = MAXIMIZE
    \<and> set (objective m) =
         {(n' * (dc_latency ep' - lat'), Z (e', v', c')) | e' v' c' n' ep' lat'.
            ((e', v'), n') \<in> set (requests d) \<and> py_index (endpoints d) e' = Inr ep'
            \<and> (c', lat') \<in> set (cache_latencies ep') \<and> 0 < dc_latency ep' - lat'}"
proof -
  note ch = build_model_char[OF build rq cl]
  let ?eps = "endpoints d"
  let ?gs = "concat (map (req_gains ?eps) (requests d))"
  let ?ks = "concat (map (req_keys ?eps) (requests d))"
  from ep cl have dcl: "distinct (map fst (cache_latencies ep))"
    by (auto dest: py_index_mem)
  note gs = concat_req_gains_mem[of _ _ ?eps "requests d"]
  have obj: "(g, Z k) \<in> set (objective m) \<longleftrightarrow> (k, g) \<in> set ?gs" for k g
    unfolding ch(3) by (rule obj_terms_mem)
  have here: "(g, Z (e, v, c)) \<in> set (objective m) \<longleftrightarrow>
      0 < dc_latency ep - lat_ec \<and> g = n_req * (dc_latency ep - lat_ec)" for g
  proof
    assume "(g, Z (e, v, c)) \<in> set (objective m)"
    then have "((e, v, c), g) \<in> set ?gs" unfolding obj .
    then obtain n' ep' lat' where "((e, v), n') \<in> set (requests d)" "py_index ?eps e = Inr ep'"
      "(c, lat') \<in> set (cache_latencies ep')" "0 < dc_latency ep' - lat'"
      "g = n' * (dc_latency ep' - lat')"
      unfolding gs by blast
    moreover from this ep have "ep' = ep" by simp
    moreover from calculation c dcl have "lat' = lat_ec" by (auto dest: distinct_lookup)
    moreover from calculation req rq have "n' = n_req" by (auto dest: distinct_lookup)
    ultimately show "0 < dc_latency ep - lat_ec \<and> g = n_req * (dc_latency ep - lat_ec)"
      by simp
  next
    assume "0 < dc_latency ep - lat_ec \<and> g = n_req * (dc_latency ep - lat_ec)"
    with req ep c have "((e, v, c), g) \<in> set ?gs" unfolding gs by blast
    then show "(g, Z (e, v, c)) \<in> set (objective m)" unfolding obj .
  qed
  have vars: "map snd (objective m) = z_vars m"
    by (simp add: ch(1) ch(3) o_def map_fst_concat_req_gains[symmetric] del: map_concat)
  have dist: "distinct (z_vars m)"
    using distinct_req_keys[OF rq cl] by (simp add: ch(1) distinct_map inj_on_def)
  have zv: "Z (e, v, c) \<in> set (z_vars m) \<longleftrightarrow> 0 < dc_latency ep - lat_ec"
  proof -
    have "Z (e, v, c) \<in> set (z_vars m) \<longleftrightarrow> (\<exists>g. (g, Z (e, v, c)) \<in> set (objective m))"
      by (force simp: vars[symmetric])
    then show ?thesis by (simp add: here)
  qed
  have pruned: "dc_latency ep - lat_ec \<le> 0 \<longrightarrow>
      Z (e, v, c) \<notin> snd ` set (objective m) \<and> (\<forall>k \<in> set (constrs m). Z (e, v, c) \<notin> constr_vars k)"
  proof
    assume neg: "dc_latency ep - lat_ec \<le> 0"
    with zv have no: "Z (e, v, c) \<notin> set (z_vars m)" by simp
    then have "Z (e, v, c) \<notin> snd ` set (objective m)"
      using vars by (metis set_map)
    moreover have "\<forall>k \<in> set (constrs m). Z (e, v, c) \<notin> constr_vars k"
      using build_model_constr_vars[OF build rq cl] no by blast
    ultimately show "Z (e, v, c) \<notin> snd ` set (objective m) \<and> (\<forall>k \<in> set (constrs m). Z (e, v, c) \<notin> constr_vars k)"
      by simp
  qed
  have all: "set (objective m) =
         {(n' * (dc_latency ep' - lat'), Z (e', v', c')) | e' v' c' n' ep' lat'.
            ((e', v'), n') \<in> set (requests d) \<and> py_index (endpoints d) e' = Inr ep'
            \<and> (c', lat') \<in> set (cache_latencies ep') \<and> 0 < dc_latency ep' - lat'}"
  proof (rule set_eqI)
    fix t :: "int \<times> var"
    obtain g x where t: "t = (g, x)" by (cases t)
    from vars have "x \<in> snd ` set (objective m) \<Longrightarrow> \<exists>k. x = Z k"
      by (metis ch(1) imageE set_map)
    then have zk: "t \<in> set (objective m) \<Longrightarrow> \<exists>k. x = Z k"
      using t by force
    show "t \<in> set (objective m) \<longleftrightarrow> t \<in> {(n' * (dc_latency ep' - lat'), Z (e', v', c')) | e' v' c' n' ep' lat'.
            ((e', v'), n') \<in> set (requests d) \<and> py_index (endpoints d) e' = Inr ep'
            \<and> (c', lat') \<in> set (cache_latencies ep') \<and> 0 < dc_latency ep' - lat'}"
    proof
      assume a: "t \<in> set (objective m)"
      with zk obtain k where "x = Z k" by blast
      with a t have "(g, Z k) \<in> set (objective m)" by simp
      then have "(k, g) \<in> set ?gs" unfolding obj .
      then obtain e' v' n' ep' c' lat' where "((e', v'), n') \<in> set (requests d)"
        "py_index ?eps e' = Inr ep'" "(c', lat') \<in> set (cache_latencies ep')"
        "0 < dc_latency ep' - lat'" "k = (e', v', c')" "g = n' * (dc_latency ep' - lat')"
        unfolding gs by blast
      with \<open>x = Z k\<close> t show "t \<in> {(n' * (dc_latency ep' - lat'), Z (e', v', c')) | e' v' c' n' ep' lat'.
            ((e', v'), n') \<in> set (requests d) \<and> py_index (endpoints d) e' = Inr ep'
            \<and> (c', lat') \<in> set (cache_latencies ep') \<and> 0 < dc_latency ep' - lat'}"
        by blast
    next
      assume "t \<in> {(n' * (dc_latency ep' - lat'), Z (e', v', c')) | e' v' c' n' ep' lat'.
            ((e', v'), n') \<in> set (requests d) \<and> py_index (endpoints d) e' = Inr ep'
            \<and> (c', lat') \<in> set (cache_latencies ep') \<and> 0 < dc_latency ep' - lat'}"
      then obtain e' v' c' n' ep' lat' where "t = (n' * (dc_latency ep' - lat'), Z (e', v', c'))"
        "((e', v'), n') \<in> set (requests d)" "py_index (endpoints d) e' = Inr ep'"
        "(c', lat') \<in> set (cache_latencies ep')" "0 < dc_latency ep' - lat'"
        by blast
      moreover from this have "((e', v', c'), n' * (dc_latency ep' - lat')) \<in> set ?gs"
        unfolding gs by blast
      ultimately show "t \<in> set (objective m)"
        unfolding obj[symmetric] by simp
    qed
  qed
  from ch(1) have "sense m = MAXIMIZE"
    using build by (auto simp: build_model_def Let_def split: sum.splits)
  with zv here pruned vars dist all show ?thesis by simp
qed

lemma example_wf:
  "distinct (map fst (requests example_data))"
  "\<forall>ep \<in> set (endpoints example_data). distinct (map fst (cache_latencies ep))"
  by (simp_all add: example_data_def)

lemma example_endpoint0:
  "py_index (endpoints example_data) 0 = Inr \<lparr>dc_latency = 10, cache_latencies = [(0, 2), (1, 12)]\<rparr>"
  by (simp add: example_data_def py_index_def)

lemma example_endpoint1:
  "py_index (endpoints example_data) 1 = Inr \<lparr>dc_latency = 20, cache_latencies = [(1, 3)]\<rparr>"
  by (simp add: example_data_def py_index_def)

theorem pruning_and_objective_witness:
  "build_model example_data = Inr example_model
   \<and> Z (0, 0, 0) \<in> set (z_vars example_model)
   \<and> (56, Z (0, 0, 0)) \<in> set (objective example_model)
   \<and> Z (0, 0, 1) \<notin> set (z_vars example_model)
   \<and> Z (0, 0, 1) \<notin> snd ` set (objective example_model)"
proof -
  have req: "((0, 0), 7) \<in> set (requests example_data)"
    by (simp add: example_data_def)
  have c0: "(0, 2) \<in> set (cache_latencies \<lparr>dc_latency = 10, cache_latencies = [(0, 2), (1, 12)]\<rparr>)"
    and c1: "(1, 12) \<in> set (cache_latencies \<lparr>dc_latency = 10, cache_latencies = [(0, 2), (1, 12)]\<rparr>)"
    by simp_all
  note kept = pruning_and_objective[OF build_example example_wf req example_endpoint0 c0]
  note pruned = pruning_and_objective[OF build_example example_wf req example_endpoint0 c1]
  from kept[THEN conjunct1] have "Z (0, 0, 0) \<in> set (z_vars example_model)"
    by simp
  moreover from kept[THEN conjunct2, THEN conjunct1]
  have "(56, Z (0, 0, 0)) \<in> set (objective example_model)"
    by simp
  moreover from pruned[THEN conjunct1] have "Z (0, 0, 1) \<notin> set (z_vars example_model)"
    by simp
  moreover from pruned[THEN conjunct2, THEN conjunct2, THEN conjunct1]
  have "Z (0, 0, 1) \<notin> snd ` set (objective example_model)"
    by simp
  ultimately show ?thesis using build_example by simp
qed

subsection \<open>Requests with a count that is not positive\<close>

text \<open>
  C10. The pruning loop tests \<^verbatim>\<open>save\<close> only. For a request key \<open>(e,v)\<close> whose aggregated
  count \<open>n_req\<close> is zero or negative and a cache \<open>c\<close> of the endpoint with \<open>save > 0\<close>, the
  model has the variable \<open>z[e,v,c]\<close>, its linking constraint, and the objective term
  \<open>n_req * save\<close>, which is zero or negative.
\<close>

theorem nonpositive_count_kept:
  assumes build: "build_model d = Inr m"
    and rq: "distinct (map fst (requests d))"
    and cl: "\<forall>ep \<in> set (endpoints d). distinct (map fst (cache_latencies ep))"
    and req: "((e, v), n_req) \<in> set (requests d)"
    and n: "n_req \<le> 0"
    and ep: "py_index (endpoints d) e = Inr ep"
    and c: "(c, lat_ec) \<in> set (cache_latencies ep)"
    and save: "0 < dc_latency ep - lat_ec"
  shows "Z (e, v, c) \<in> set (z_vars m)
    \<and> (n_req * (dc_latency ep - lat_ec), Z (e, v, c)) \<in> set (objective m)
    \<and> n_req * (dc_latency ep - lat_ec) \<le> 0
    \<and> Link (e, v, c) (Z (e, v, c)) (Y (v, c)) \<in> set (constrs m)"
proof -
  note ch = build_model_char[OF build rq cl]
  from req ep c save
  have g: "((e, v, c), n_req * (dc_latency ep - lat_ec)) \<in> set (concat (map (req_gains (endpoints d)) (requests d)))"
    unfolding concat_req_gains_mem by blast
  then have o: "(n_req * (dc_latency ep - lat_ec), Z (e, v, c)) \<in> set (objective m)"
    unfolding ch(3) obj_terms_mem .
  from g have "(e, v, c) \<in> fst ` set (concat (map (req_gains (endpoints d)) (requests d)))"
    by (rule rev_image_eqI) simp
  then have k: "(e, v, c) \<in> set (concat (map (req_keys (endpoints d)) (requests d)))"
    by (simp only: map_fst_concat_req_gains[symmetric] set_map)
  then have z: "Z (e, v, c) \<in> set (z_vars m)"
    unfolding ch(1) by simp
  from k have "link_of (e, v, c) \<in> set (constrs m)"
    unfolding ch(2) by simp
  then have l: "Link (e, v, c) (Z (e, v, c)) (Y (v, c)) \<in> set (constrs m)"
    by (simp add: link_of_def)
  from n save have "n_req * (dc_latency ep - lat_ec) \<le> 0"
    by (simp add: mult_nonpos_nonneg)
  with z o l show ?thesis by simp
qed

theorem nonpositive_count_kept_witness:
  "build_model example_data = Inr example_model
   \<and> Z (1, 1, 1) \<in> set (z_vars example_model)
   \<and> (- 34, Z (1, 1, 1)) \<in> set (objective example_model)
   \<and> Link (1, 1, 1) (Z (1, 1, 1)) (Y (1, 1)) \<in> set (constrs example_model)"
proof -
  have req: "((1, 1), - 2) \<in> set (requests example_data)"
    by (simp add: example_data_def)
  have n: "(- 2 :: int) \<le> 0" by simp
  have c: "(1, 3) \<in> set (cache_latencies \<lparr>dc_latency = 20, cache_latencies = [(1, 3)]\<rparr>)"
    by simp
  have save: "0 < dc_latency \<lparr>dc_latency = 20, cache_latencies = [(1, 3)]\<rparr> - 3"
    by simp
  from nonpositive_count_kept[OF build_example example_wf req n example_endpoint1 c save] build_example
  show ?thesis by simp
qed

subsection \<open>The linking constraints\<close>

lemma filter_is_link_constrs:
  "filter is_link (map (cap_of d) cs @ map link_of ks @ map unique_of ps) = map link_of ks"
proof -
  have "filter is_link (map (cap_of d) cs) = []"
    by (induction cs) (simp_all add: cap_of_def)
  moreover have "filter is_link (map link_of ks) = map link_of ks"
    by (induction ks) (simp_all add: link_of_def)
  moreover have "filter is_link (map unique_of ps) = []"
    by (induction ps) (simp_all add: unique_of_def)
  ultimately show ?thesis by simp
qed

text \<open>
  C3. The linking constraints of the model are exactly one \<open>z[e,v,c] <= y[v,c]\<close> for each
  \<open>z\<close> variable, in the order of the variables, and the \<open>z\<close> variables are pairwise
  different. So an assignment with \<open>z[e,v,c] = 1\<close> and \<open>y[v,c] = 0\<close> for a \<open>z\<close> variable of
  the model is not feasible.
\<close>

theorem linking_constraints:
  assumes build: "build_model d = Inr m"
    and rq: "distinct (map fst (requests d))"
    and cl: "\<forall>ep \<in> set (endpoints d). distinct (map fst (cache_latencies ep))"
  shows "(\<exists>ks. distinct ks \<and> z_vars m = map Z ks
            \<and> filter is_link (constrs m) = map (\<lambda>k. Link k (Z k) (Y (snd k))) ks)
    \<and> (\<forall>e v c a. Z (e, v, c) \<in> set (z_vars m) \<longrightarrow> a (Z (e, v, c)) = 1 \<longrightarrow> a (Y (v, c)) = 0
          \<longrightarrow> \<not> feasible m a)"
proof -
  note ch = build_model_char[OF build rq cl]
  let ?ks = "concat (map (req_keys (endpoints d)) (requests d))"
  have links: "filter is_link (constrs m) = map (\<lambda>k. Link k (Z k) (Y (snd k))) ?ks"
    unfolding ch(2) filter_is_link_constrs by (simp add: link_of_def)
  have first: "\<exists>ks. distinct ks \<and> z_vars m = map Z ks
            \<and> filter is_link (constrs m) = map (\<lambda>k. Link k (Z k) (Y (snd k))) ks"
    using distinct_req_keys[OF rq cl] ch(1) links by blast
  have second: "\<not> feasible m a"
    if z: "Z (e, v, c) \<in> set (z_vars m)" and one: "a (Z (e, v, c)) = 1" and zero: "a (Y (v, c)) = 0"
    for e v c and a :: "var \<Rightarrow> real"
  proof
    assume f: "feasible m a"
    from z have "(e, v, c) \<in> set ?ks" unfolding ch(1) by auto
    then have "link_of (e, v, c) \<in> set (constrs m)" unfolding ch(2) by simp
    with f have "holds a (link_of (e, v, c))"
      by (simp add: feasible_def list_all_iff)
    with one zero show False by (simp add: link_of_def)
  qed
  from first second show ?thesis by blast
qed

theorem linking_constraints_witness:
  "build_model example_data = Inr example_model
   \<and> filter is_link (constrs example_model) =
       [Link (0, 0, 0) (Z (0, 0, 0)) (Y (0, 0)),
        Link (1, 1, 1) (Z (1, 1, 1)) (Y (1, 1)),
        Link (1, 2, 1) (Z (1, 2, 1)) (Y (2, 1))]
   \<and> \<not> feasible example_model (\<lambda>x. if x = Z (1, 2, 1) then 1 else 0)"
proof -
  let ?a = "\<lambda>x. if x = Z (1, 2, 1) then 1 else (0::real)"
  have z: "Z (1, 2, 1) \<in> set (z_vars example_model)"
    by (simp add: example_model_def)
  have "?a (Z (1, 2, 1)) = 1" "?a (Y (2, 1)) = 0" by simp_all
  with linking_constraints[OF build_example example_wf, THEN conjunct2, rule_format, of 1 2 1 ?a] z
  have "\<not> feasible example_model ?a" by simp
  moreover have "filter is_link (constrs example_model) =
       [Link (0, 0, 0) (Z (0, 0, 0)) (Y (0, 0)),
        Link (1, 1, 1) (Z (1, 1, 1)) (Y (1, 1)),
        Link (1, 2, 1) (Z (1, 2, 1)) (Y (2, 1))]"
    by (simp add: example_model_def)
  ultimately show ?thesis using build_example by simp
qed

subsection \<open>The single-source constraints\<close>

lemma filter_req_caches:
  assumes "distinct (map fst rq)" and "r \<in> set rq"
  shows "filter (\<lambda>p. fst p = fst r) (concat (map (req_caches eps) rq)) = req_caches eps r"
  using assms
proof (induction rq)
  case Nil
  then show ?case by simp
next
  case (Cons r0 rq)
  have keep: "filter (\<lambda>p. fst p = k) (req_caches eps r') = (if fst r' = k then req_caches eps r' else [])"
    for k r'
    by (auto simp: req_caches_def)
  show ?case
  proof (cases "r = r0")
    case True
    with Cons.prems have "\<forall>r' \<in> set rq. fst r' \<noteq> fst r" by (auto simp: image_iff)
    then have "filter (\<lambda>p. fst p = fst r) (concat (map (req_caches eps) rq)) = []"
      by (induction rq) (simp_all add: keep)
    with True show ?thesis by (simp add: keep)
  next
    case False
    with Cons.prems have "r \<in> set rq" "fst r0 \<noteq> fst r" "distinct (map fst rq)"
      by (auto simp: image_iff)
    with Cons.IH show ?thesis by (simp add: keep)
  qed
qed

lemma filter_unique_constrs:
  "filter (\<lambda>k. is_unique k \<and> unique_name k = ev) (map (cap_of d) cs @ map link_of ks @ map unique_of ps)
     = map unique_of (filter (\<lambda>p. fst p = ev) ps)"
proof -
  have "filter (\<lambda>k. is_unique k \<and> unique_name k = ev) (map (cap_of d) cs) = []"
    by (induction cs) (simp_all add: cap_of_def)
  moreover have "filter (\<lambda>k. is_unique k \<and> unique_name k = ev) (map link_of ks) = []"
    by (induction ks) (simp_all add: link_of_def)
  moreover have "filter (\<lambda>k. is_unique k \<and> unique_name k = ev) (map unique_of ps)
      = map unique_of (filter (\<lambda>p. fst p = ev) ps)"
    by (induction ps) (simp_all add: unique_of_def)
  ultimately show ?thesis by simp
qed

text \<open>
  C4. Whenever \<^verbatim>\<open>build_model\<close> returns a model: for a request key \<open>(e,v)\<close>, let \<open>cs\<close> be the
  caches of \<^verbatim>\<open>endpoints[e]\<close> with \<open>save > 0\<close>, in the order of the dictionary. These are
  the caches \<open>c\<close> for which \<open>z[e,v,c]\<close> exists. If there is none, the model has no
  single-source constraint named for \<open>(e,v)\<close>; otherwise it has exactly one, the sum of
  the \<open>z[e,v,c]\<close> for \<open>c\<close> in \<open>cs\<close>, each with coefficient 1, bounded by 1. Every
  single-source constraint of the model is named for a pair that has a \<open>z\<close> variable.
\<close>

theorem single_source_constraints:
  assumes build: "build_model d = Inr m"
    and rq: "distinct (map fst (requests d))"
    and cl: "\<forall>ep \<in> set (endpoints d). distinct (map fst (cache_latencies ep))"
    and req: "((e, v), n_req) \<in> set (requests d)"
    and ep: "py_index (endpoints d) e = Inr ep"
    and cs: "cs = map fst (filter (\<lambda>p. 0 < dc_latency ep - snd p) (cache_latencies ep))"
  shows "set cs = {c. Z (e, v, c) \<in> set (z_vars m)} \<and> distinct cs
    \<and> filter (\<lambda>k. is_unique k \<and> unique_name k = (e, v)) (constrs m) =
         (if cs = [] then [] else [Unique (e, v) (map (\<lambda>c. (1, Z (e, v, c))) cs) 1])
    \<and> (\<forall>k \<in> set (constrs m). is_unique k \<longrightarrow>
          (\<exists>c. Z (fst (unique_name k), snd (unique_name k), c) \<in> set (z_vars m)))"
proof -
  note ch = build_model_char[OF build rq cl]
  let ?eps = "endpoints d"
  let ?r = "((e, v), n_req)"
  have sav: "map fst (req_savings ?eps ?r) = cs"
    by (simp add: req_savings_def ep cs map_fst_savings kept_def)
  have rc: "req_caches ?eps ?r = (if cs = [] then [] else [((e, v), cs)])"
    using sav by (auto simp: req_caches_def)
  have "filter (\<lambda>k. is_unique k \<and> unique_name k = (e, v)) (constrs m)
      = map unique_of (req_caches ?eps ?r)"
    unfolding ch(2) filter_unique_constrs using filter_req_caches[OF rq req, of ?eps] by simp
  then have one: "filter (\<lambda>k. is_unique k \<and> unique_name k = (e, v)) (constrs m) =
         (if cs = [] then [] else [Unique (e, v) (map (\<lambda>c. (1, Z (e, v, c))) cs) 1])"
    by (simp add: rc unique_of_def)
  have rk: "req_keys ?eps ?r = map (\<lambda>c. (e, v, c)) cs"
    by (simp add: req_keys_def sav[symmetric] o_def)
  have zs: "set cs = {c. Z (e, v, c) \<in> set (z_vars m)}"
  proof (rule set_eqI)
    fix c
    have "Z (e, v, c) \<in> set (z_vars m) \<longleftrightarrow> (\<exists>r \<in> set (requests d). (e, v, c) \<in> set (req_keys ?eps r))"
      unfolding ch(1) by auto
    also have "\<dots> \<longleftrightarrow> (e, v, c) \<in> set (req_keys ?eps ?r)"
    proof
      assume "\<exists>r \<in> set (requests d). (e, v, c) \<in> set (req_keys ?eps r)"
      then obtain r where r: "r \<in> set (requests d)" and k: "(e, v, c) \<in> set (req_keys ?eps r)"
        by blast
      from req_keys_proj[OF k] have "fst r = (e, v)" by simp
      with r req rq have "r = ?r"
        by (metis distinct_lookup prod.collapse)
      with k show "(e, v, c) \<in> set (req_keys ?eps ?r)" by simp
    next
      assume "(e, v, c) \<in> set (req_keys ?eps ?r)"
      with req show "\<exists>r \<in> set (requests d). (e, v, c) \<in> set (req_keys ?eps r)" by blast
    qed
    also have "\<dots> \<longleftrightarrow> c \<in> set cs" by (auto simp: rk)
    finally show "c \<in> set cs \<longleftrightarrow> c \<in> {c. Z (e, v, c) \<in> set (z_vars m)}" by simp
  qed
  from ep cl have "distinct (map fst (cache_latencies ep))"
    by (auto dest: py_index_mem)
  then have dist: "distinct cs"
    by (simp add: cs distinct_map_filter)
  have named: "\<exists>c. Z (fst (unique_name k), snd (unique_name k), c) \<in> set (z_vars m)"
    if k: "k \<in> set (constrs m)" and u: "is_unique k" for k
  proof -
    from k u have "k \<in> unique_of ` (\<Union>r \<in> set (requests d). set (req_caches ?eps r))"
      unfolding ch(2) by (auto simp: cap_of_def link_of_def)
    then obtain r p where r: "r \<in> set (requests d)" and p: "p \<in> set (req_caches ?eps r)"
      and kp: "k = unique_of p"
      by blast
    from req_caches_mem[OF p] obtain c where "c \<in> set (snd p)"
      and "(fst (fst r), snd (fst r), c) \<in> set (req_keys ?eps r)" and "fst p = fst r"
      by (cases "snd p") auto
    with r kp have "Z (fst (unique_name k), snd (unique_name k), c) \<in> set (z_vars m)"
      unfolding ch(1) by (auto simp: unique_of_def)
    then show ?thesis ..
  qed
  from zs dist one named show ?thesis by blast
qed

theorem single_source_constraints_witness:
  "build_model example_data = Inr example_model
   \<and> {c. Z (0, 0, c) \<in> set (z_vars example_model)} = {0}
   \<and> filter (\<lambda>k. is_unique k \<and> unique_name k = (0, 0)) (constrs example_model) =
       [Unique (0, 0) [(1, Z (0, 0, 0))] 1]"
proof -
  have req: "((0, 0), 7) \<in> set (requests example_data)"
    by (simp add: example_data_def)
  have cs: "[0] = map fst (filter (\<lambda>p. 0 < dc_latency \<lparr>dc_latency = 10, cache_latencies = [(0, 2), (1, 12)]\<rparr> - snd p)
      (cache_latencies \<lparr>dc_latency = 10, cache_latencies = [(0, 2), (1, 12)]\<rparr>))"
    by simp
  from single_source_constraints[OF build_example example_wf req example_endpoint0 cs] build_example
  show ?thesis by simp
qed

subsection \<open>Reading\<close>

lemma readline_append: "fst (readline f) \<noteq> [] \<Longrightarrow> readline (f @ g) = (fst (readline f), snd (readline f) @ g)"
  by (cases f) simp_all

lemma read_cache_latencies_append:
  "read_cache_latencies k f cl = Inr (cl', f') \<Longrightarrow> read_cache_latencies k (f @ g) cl = Inr (cl', f' @ g)"
proof (induction k arbitrary: f cl)
  case 0
  then show ?case by simp
next
  case (Suc k)
  from Suc.prems obtain c_id lat where l: "fst (readline f) = [c_id, lat]"
    by (auto split: list.splits)
  then have "readline (f @ g) = ([c_id, lat], snd (readline f) @ g)"
    by (simp add: readline_append)
  moreover from Suc.prems l
  have "read_cache_latencies k (snd (readline f)) (AList.update c_id lat cl) = Inr (cl', f')"
    by simp
  ultimately show ?case using Suc.IH by simp
qed

lemma read_endpoints_append:
  "read_endpoints k f eps = Inr (eps', f') \<Longrightarrow> read_endpoints k (f @ g) eps = Inr (eps', f' @ g)"
proof (induction k arbitrary: f eps)
  case 0
  then show ?case by simp
next
  case (Suc k)
  from Suc.prems obtain dc K where l: "fst (readline f) = [dc, K]"
    by (auto split: list.splits)
  then have rl: "readline (f @ g) = ([dc, K], snd (readline f) @ g)"
    by (simp add: readline_append)
  from Suc.prems l obtain cl f1 where
    cl: "read_cache_latencies (nat K) (snd (readline f)) [] = Inr (cl, f1)"
    and rest: "read_endpoints k f1 (eps @ [\<lparr>dc_latency = dc, cache_latencies = cl\<rparr>]) = Inr (eps', f')"
    by (auto split: sum.splits)
  from read_cache_latencies_append[OF cl, of g] Suc.IH[OF rest] rl show ?case by simp
qed

lemma get0_update: "get0 (AList.update k x al) k = x"
  by (simp add: get0_def update_conv')

lemma get0_Cons: "get0 (p # ps) k = (if fst p = k then snd p else get0 ps k)"
  by (cases p) (auto simp: get0_def)

lemma add_commute:
  "k \<in> fst ` set rq \<Longrightarrow>
   AList.update k (get0 (AList.update k' (get0 rq k' + b) rq) k + a) (AList.update k' (get0 rq k' + b) rq)
     = AList.update k' (get0 (AList.update k (get0 rq k + a) rq) k' + b) (AList.update k (get0 rq k + a) rq)"
proof (induction rq)
  case Nil
  then show ?case by simp
next
  case (Cons p ps)
  show ?case
  proof (cases "fst p = k")
    case True
    then show ?thesis by (auto simp: get0_Cons)
  next
    case False
    with Cons.prems have "k \<in> fst ` set ps" by auto
    from Cons.IH[OF this] False show ?thesis by (auto simp: get0_Cons)
  qed
qed

lemma read_requests_later:
  "k \<in> fst ` set rq \<Longrightarrow> k = (e, v) \<Longrightarrow> length mid \<le> j \<Longrightarrow>
   read_requests (Suc j) (mid @ [v, e, n2] # post) rq
     = read_requests j (mid @ post) (AList.update k (get0 rq k + n2) rq)"
proof (induction mid arbitrary: j rq)
  case Nil
  then show ?case by simp
next
  case (Cons l mid)
  then obtain j' where j: "j = Suc j'" "length mid \<le> j'"
    by (cases j) auto
  show ?case
  proof (cases "\<exists>v' e' n'. l = [v', e', n']")
    case True
    then obtain v' e' n' where l: "l = [v', e', n']" by blast
    let ?rq = "AList.update (e', v') (get0 rq (e', v') + n') rq"
    from Cons.prems(1) have "k \<in> fst ` set ?rq" by (simp add: dom_update)
    from Cons.IH[OF this Cons.prems(2) j(2)] add_commute[OF Cons.prems(1), of "(e', v')" n' n2]
    show ?thesis by (simp add: l j)
  next
    case False
    then have "(case l of [v_id, e_id, n_req] \<Rightarrow> g v_id e_id n_req | _ \<Rightarrow> Inl ValueError) = Inl ValueError"
      for g :: "int \<Rightarrow> int \<Rightarrow> int \<Rightarrow> error + ((int \<times> int) \<times> int) list"
      by (auto split: list.splits)
    with j show ?thesis by simp
  qed
qed

lemma read_requests_split:
  "length pre + length mid < k \<Longrightarrow>
   read_requests (Suc k) (pre @ [v, e, n1] # mid @ [v, e, n2] # post) rq
     = read_requests k (pre @ [v, e, n1 + n2] # mid @ post) rq"
proof (induction pre arbitrary: k rq)
  case Nil
  then obtain k' where k: "k = Suc k'" "length mid \<le> k'"
    by (cases k) auto
  let ?rq = "AList.update (e, v) (get0 rq (e, v) + n1) rq"
  have "(e, v) \<in> fst ` set ?rq" by (simp add: dom_update)
  from read_requests_later[OF this refl k(2), of n2 post] show ?case
    by (simp add: k get0_update add.assoc)
next
  case (Cons l pre)
  then obtain k' where k: "k = Suc k'" "length pre + length mid < k'"
    by (cases k) auto
  show ?case
  proof (cases "\<exists>v' e' n'. l = [v', e', n']")
    case True
    then obtain v' e' n' where "l = [v', e', n']" by blast
    with k Cons.IH[OF k(2)] show ?thesis by simp
  next
    case False
    then have "(case l of [v_id, e_id, n_req] \<Rightarrow> g v_id e_id n_req | _ \<Rightarrow> Inl ValueError) = Inl ValueError"
      for g :: "int \<Rightarrow> int \<Rightarrow> int \<Rightarrow> error + ((int \<times> int) \<times> int) list"
      by (auto split: list.splits)
    with k show ?thesis by simp
  qed
qed

lemma cap_constr_ignores_R: "cap_constr (d\<lparr>R := r\<rparr>) = cap_constr d"
  by (rule ext)+ (simp add: cap_constr_def split: sum.splits)

lemma build_model_ignores_R: "build_model (d\<lparr>R := r\<rparr>) = build_model d"
  by (simp add: build_model_def cap_constr_ignores_R Let_def cong: sum.case_cong)

text \<open>
  C5. Take an instance file whose endpoint section is \<open>eplines\<close> and whose request
  section is the records \<open>pre\<close>, the record \<open>(v, e, n)\<close>, the records \<open>mid\<close> and the
  records \<open>post\<close>, where \<open>pre\<close>, the record and \<open>mid\<close> are among the \<open>R\<close> records read.
  Replacing the record by \<open>(v, e, n1)\<close> in its place and \<open>(v, e, n2)\<close> after \<open>mid\<close> (right
  after it when \<open>mid\<close> is empty), with \<open>n1 + n2 = n\<close>, and counting one record more in
  the header, changes nothing but the count: reading fails on one file
  exactly when it fails on the other, with the same exception; otherwise the two
  instances read differ in the field \<open>R\<close> only, so their \<open>requests\<close> dictionaries are
  the same, and \<^verbatim>\<open>build_model\<close> returns the same result for both.
\<close>

theorem aggregation_additive:
  assumes sum: "n1 + n2 = n"
    and eps: "read_endpoints (nat nE) eplines [] = Inr (eps, [])"
    and pre: "int (length pre + length mid) < nR"
    and f: "f = [nV, nE, nR, nC, nX] # sizes # eplines @ pre @ [v, e, n] # mid @ post"
    and f': "f' = [nV, nE, nR + 1, nC, nX] # sizes # eplines @ pre @ [v, e, n1] # mid @ [v, e, n2] # post"
  shows "(\<forall>err. read_instance f = Inl err \<longleftrightarrow> read_instance f' = Inl err)
    \<and> (\<forall>d. read_instance f = Inr d \<longrightarrow>
          read_instance f' = Inr (d\<lparr>R := nR + 1\<rparr>)
          \<and> requests (d\<lparr>R := nR + 1\<rparr>) = requests d
          \<and> build_model (d\<lparr>R := nR + 1\<rparr>) = build_model d)"
proof -
  let ?one = "pre @ [v, e, n] # mid @ post"
  let ?two = "pre @ [v, e, n1] # mid @ [v, e, n2] # post"
  from pre have k: "length pre + length mid < nat nR" and suc: "nat (nR + 1) = Suc (nat nR)"
    by simp_all
  have rr: "read_requests (nat (nR + 1)) ?two [] = read_requests (nat nR) ?one []"
    unfolding suc using read_requests_split[OF k, of v e n1 n2 post "[]"] sum by simp
  have e1: "read_endpoints (nat nE) (eplines @ ?one) [] = Inr (eps, ?one)"
    using read_endpoints_append[OF eps, of ?one] by simp
  have e2: "read_endpoints (nat nE) (eplines @ ?two) [] = Inr (eps, ?two)"
    using read_endpoints_append[OF eps, of ?two] by simp
  have r1: "read_instance f =
      (if int (length sizes) \<noteq> nV then Inl AssertionError
       else case read_requests (nat nR) ?one [] of
              Inl err \<Rightarrow> Inl err
            | Inr rq \<Rightarrow> Inr \<lparr>V = nV, E = nE, R = nR, C = nC, X = nX,
                            video_sizes = sizes, endpoints = eps, requests = rq\<rparr>)"
    unfolding f read_instance_def by (simp add: e1)
  have r2: "read_instance f' =
      (if int (length sizes) \<noteq> nV then Inl AssertionError
       else case read_requests (nat nR) ?one [] of
              Inl err \<Rightarrow> Inl err
            | Inr rq \<Rightarrow> Inr \<lparr>V = nV, E = nE, R = nR + 1, C = nC, X = nX,
                            video_sizes = sizes, endpoints = eps, requests = rq\<rparr>)"
    unfolding f' read_instance_def by (simp add: e2 rr)
  show ?thesis
    unfolding r1 r2 by (auto simp: build_model_ignores_R split: sum.splits)
qed

theorem aggregation_additive_witness:
  "read_instance example_file = Inr example_data
   \<and> read_instance
       [[3, 2, 3, 2, 10], [5, 6, 7], [10, 2], [0, 2], [1, 12], [20, 1], [1, 3],
        [0, 0, 7], [1, 1, -2], [2, 1, 5]] = Inr (example_data\<lparr>R := 3\<rparr>)
   \<and> requests example_data = [((0, 0), 7), ((1, 1), -2), ((1, 2), 5)]
   \<and> build_model (example_data\<lparr>R := 3\<rparr>) = Inr example_model"
proof -
  let ?eplines = "[[10, 2], [0, 2], [1, 12], [20, 1], [1, 3 :: int]]"
  let ?f = "[[3, 2, 3, 2, 10], [5, 6, 7], [10, 2], [0, 2], [1, 12], [20, 1], [1, 3],
        [0, 0, 7], [1, 1, -2], [2, 1, 5 :: int]]"
  have sum: "(3 :: int) + 4 = 7" by simp
  have eps: "read_endpoints (nat 2) ?eplines [] = Inr (endpoints example_data, [])"
    by (simp add: example_data_def eval_nat_numeral)
  have pre: "int (length ([] :: int list list) + length [[1, 1, -2 :: int]]) < 3" by simp
  have f: "?f = [3, 2, 3, 2, 10] # [5, 6, 7] # ?eplines @ [] @ [0, 0, 7] # [[1, 1, -2]] @ [[2, 1, 5]]"
    by simp
  have f': "example_file = [3, 2, 3 + 1, 2, 10] # [5, 6, 7] # ?eplines @ [] @ [0, 0, 3] # [[1, 1, -2]] @ [0, 0, 4] # [[2, 1, 5]]"
    by (simp add: example_file_def)
  have one: "read_instance ?f = Inr (example_data\<lparr>R := 3\<rparr>)"
    by (simp add: read_instance_def example_data_def get0_def eval_nat_numeral)
  from aggregation_additive[OF sum eps pre f f', THEN conjunct2, rule_format, OF one]
  have "read_instance example_file = Inr (example_data\<lparr>R := 3, R := 3 + 1\<rparr>)"
    and "build_model (example_data\<lparr>R := 3, R := 3 + 1\<rparr>) = build_model (example_data\<lparr>R := 3\<rparr>)"
    by simp_all
  moreover have "example_data\<lparr>R := 3, R := 3 + 1\<rparr> = example_data"
    by (simp add: example_data_def)
  ultimately show ?thesis using one build_example
    by (simp add: example_data_def)
qed

subsection \<open>What reading accepts\<close>

lemma read_cache_latencies_lines:
  "read_cache_latencies (length cl) (map (\<lambda>q. [fst q, snd q]) cl @ g) acc
     = Inr (fold (\<lambda>q. AList.update (fst q) (snd q)) cl acc, g)"
  by (induction cl arbitrary: acc) simp_all

lemma read_endpoints_lines:
  "read_endpoints (length eps) (concat (map endpoint_lines eps) @ g) acc
     = Inr (acc @ map (\<lambda>p. \<lparr>dc_latency = fst p,
                cache_latencies = fold (\<lambda>q. AList.update (fst q) (snd q)) (snd p) []\<rparr>) eps, g)"
proof (induction eps arbitrary: acc)
  case Nil
  then show ?case by simp
next
  case (Cons p eps)
  have "read_cache_latencies (nat (int (length (snd p))))
          (map (\<lambda>q. [fst q, snd q]) (snd p) @ concat (map endpoint_lines eps) @ g) []
        = Inr (fold (\<lambda>q. AList.update (fst q) (snd q)) (snd p) [], concat (map endpoint_lines eps) @ g)"
    by (simp add: read_cache_latencies_lines)
  with Cons.IH show ?case by (simp add: endpoint_lines_def[of p])
qed

lemma read_requests_lines:
  "read_requests (length rs) (map request_line rs @ g) acc
     = Inr (fold (\<lambda>r rq. AList.update (fst (snd r), fst r) (get0 rq (fst (snd r), fst r) + snd (snd r)) rq) rs acc)"
  by (induction rs arbitrary: acc) (simp_all add: request_line_def)

lemma fold_update_keys:
  "fst ` set (fold (\<lambda>q. AList.update (fst q) (snd q)) cl acc) = fst ` set cl \<union> fst ` set acc"
  by (induction cl arbitrary: acc) (auto simp: dom_update)

lemma fold_add_keys:
  "fst ` set (fold (\<lambda>r rq. AList.update (fst (snd r), fst r) (get0 rq (fst (snd r), fst r) + snd (snd r)) rq) rs acc)
     = (\<lambda>r. (fst (snd r), fst r)) ` set rs \<union> fst ` set acc"
  by (induction rs arbitrary: acc) (auto simp: dom_update)

lemma read_cache_latencies_distinct:
  "read_cache_latencies k f cl = Inr (cl', f') \<Longrightarrow> distinct (map fst cl) \<Longrightarrow> distinct (map fst cl')"
proof (induction k arbitrary: f cl)
  case 0
  then show ?case by simp
next
  case (Suc k)
  from Suc.prems(1) obtain c_id lat where "fst (readline f) = [c_id, lat]"
    and "read_cache_latencies k (snd (readline f)) (AList.update c_id lat cl) = Inr (cl', f')"
    by (auto split: list.splits)
  with Suc.IH Suc.prems(2) show ?case by (simp add: distinct_update)
qed

lemma read_endpoints_distinct:
  "read_endpoints k f eps = Inr (eps', f') \<Longrightarrow>
   \<forall>ep \<in> set eps. distinct (map fst (cache_latencies ep)) \<Longrightarrow>
   \<forall>ep \<in> set eps'. distinct (map fst (cache_latencies ep))"
proof (induction k arbitrary: f eps)
  case 0
  then show ?case by simp
next
  case (Suc k)
  from Suc.prems(1) obtain dc K cl f1 where
    cl: "read_cache_latencies (nat K) (snd (readline f)) [] = Inr (cl, f1)"
    and rest: "read_endpoints k f1 (eps @ [\<lparr>dc_latency = dc, cache_latencies = cl\<rparr>]) = Inr (eps', f')"
    by (auto split: list.splits sum.splits)
  from read_cache_latencies_distinct[OF cl] have "distinct (map fst cl)" by simp
  with Suc.prems(2) have "\<forall>ep \<in> set (eps @ [\<lparr>dc_latency = dc, cache_latencies = cl\<rparr>]).
      distinct (map fst (cache_latencies ep))"
    by simp
  from Suc.IH[OF rest this] show ?case .
qed

lemma read_requests_distinct:
  "read_requests k f rq = Inr rq' \<Longrightarrow> distinct (map fst rq) \<Longrightarrow> distinct (map fst rq')"
proof (induction k arbitrary: f rq)
  case 0
  then show ?case by simp
next
  case (Suc k)
  from Suc.prems(1) obtain v_id e_id n_req where "fst (readline f) = [v_id, e_id, n_req]"
    and "read_requests k (snd (readline f))
           (AList.update (e_id, v_id) (get0 rq (e_id, v_id) + n_req) rq) = Inr rq'"
    by (auto split: list.splits)
  with Suc.IH Suc.prems(2) show ?case by (simp add: distinct_update)
qed

text \<open>The dictionaries \<^verbatim>\<open>read_instance\<close> returns have one entry per key, as every
  Python dictionary has: the hypotheses on keys in the theorems about \<^verbatim>\<open>build_model\<close>
  hold for every instance read from a file.\<close>

lemma read_instance_distinct:
  assumes "read_instance f = Inr d"
  shows "distinct (map fst (requests d))"
    and "\<forall>ep \<in> set (endpoints d). distinct (map fst (cache_latencies ep))"
proof -
  from assms obtain nE nR f2 f3 where
    eps: "read_endpoints (nat nE) f2 [] = Inr (endpoints d, f3)"
    and rq: "read_requests (nat nR) f3 [] = Inr (requests d)"
    by (auto simp: read_instance_def Let_def split: list.splits sum.splits if_splits)
  from read_requests_distinct[OF rq] show "distinct (map fst (requests d))" by simp
  from read_endpoints_distinct[OF eps]
  show "\<forall>ep \<in> set (endpoints d). distinct (map fst (cache_latencies ep))" by simp
qed

lemma read_cache_latencies_error: "read_cache_latencies k f cl = Inl err \<Longrightarrow> err = ValueError"
  by (induction k arbitrary: f cl) (auto split: list.splits)

lemma read_endpoints_error: "read_endpoints k f eps = Inl err \<Longrightarrow> err = ValueError"
  by (induction k arbitrary: f eps)
    (auto split: list.splits sum.splits dest: read_cache_latencies_error)

lemma read_requests_error: "read_requests k f rq = Inl err \<Longrightarrow> err = ValueError"
  by (induction k arbitrary: f rq) (auto split: list.splits)

text \<open>The exceptions of \<^verbatim>\<open>read_instance\<close>: ValueError when the header does not have five
  tokens, AssertionError when it has and the number of sizes is not \<open>V\<close>, and no
  exception other than these two.\<close>

lemma read_instance_header_error:
  "length (fst (readline g)) \<noteq> 5 \<Longrightarrow> read_instance g = Inl ValueError"
  by (auto simp: read_instance_def split: list.splits)

lemma read_instance_sizes_error:
  "fst (readline g) = [nV, nE, nR, nC, nX] \<Longrightarrow>
   int (length (fst (readline (snd (readline g))))) \<noteq> nV \<Longrightarrow>
   read_instance g = Inl AssertionError"
  by (simp add: read_instance_def Let_def)

lemma read_instance_error_kinds:
  "read_instance g = Inl err \<Longrightarrow> err = ValueError \<or> err = AssertionError"
  by (auto simp: read_instance_def Let_def split: list.splits sum.splits if_splits
      dest: read_endpoints_error read_requests_error)

text \<open>
  C8, as the code has it. \<^verbatim>\<open>read_instance\<close> compares no index with \<open>E\<close>, \<open>V\<close> or \<open>C\<close>. A
  file laid out as the format says (a header of five numbers, \<open>V\<close> sizes, \<open>E\<close> endpoint
  blocks each with its \<open>K\<close> cache lines, \<open>R\<close> request lines, anything after them) is
  read successfully, with no exception, whatever the indices in its records are: the
  instance read has the header's numbers and the sizes, the endpoints' latencies in
  order, and every cache index and every \<open>(endpoint, video)\<close> pair a record names, in
  range or not, is a key of the dictionary read.
\<close>

theorem read_instance_no_range_check:
  assumes sizes: "int (length sizes) = nV"
    and eps: "int (length eps) = nE"
    and rs: "int (length rs) = nR"
    and f: "f = [nV, nE, nR, nC, nX] # sizes # concat (map endpoint_lines eps) @ map request_line rs @ extra"
  shows "\<exists>d. read_instance f = Inr d
          \<and> V d = nV \<and> E d = nE \<and> R d = nR \<and> C d = nC \<and> X d = nX \<and> video_sizes d = sizes
          \<and> map dc_latency (endpoints d) = map fst eps
          \<and> map (\<lambda>ep. fst ` set (cache_latencies ep)) (endpoints d) = map (\<lambda>p. fst ` set (snd p)) eps
          \<and> fst ` set (requests d) = (\<lambda>r. (fst (snd r), fst r)) ` set rs"
proof -
  let ?eps = "map (\<lambda>p. \<lparr>dc_latency = fst p,
                cache_latencies = fold (\<lambda>q. AList.update (fst q) (snd q)) (snd p) []\<rparr>) eps"
  let ?rq = "fold (\<lambda>r rq. AList.update (fst (snd r), fst r) (get0 rq (fst (snd r), fst r) + snd (snd r)) rq) rs []"
  let ?d = "\<lparr>V = nV, E = nE, R = nR, C = nC, X = nX, video_sizes = sizes, endpoints = ?eps, requests = ?rq\<rparr>"
  from eps have e: "nat nE = length eps" by auto
  from rs have r: "nat nR = length rs" by auto
  have "read_instance f = Inr ?d"
    unfolding f read_instance_def
    using sizes read_endpoints_lines[of eps "map request_line rs @ extra" "[]"]
      read_requests_lines[of rs extra "[]"]
    by (simp add: e r)
  moreover have "map dc_latency ?eps = map fst eps"
    by (simp add: o_def)
  moreover have "map (\<lambda>ep. fst ` set (cache_latencies ep)) ?eps = map (\<lambda>p. fst ` set (snd p)) eps"
    by (simp add: o_def fold_update_keys)
  moreover have "fst ` set ?rq = (\<lambda>r. (fst (snd r), fst r)) ` set rs"
    by (simp add: fold_add_keys)
  ultimately show ?thesis
    by simp
qed

theorem read_instance_no_range_check_witness:
  "read_instance [[1, 1, 1, 1, 10], [5], [10, 1], [7, 2], [9, 4, 3]] =
     Inr \<lparr>V = 1, E = 1, R = 1, C = 1, X = 10, video_sizes = [5],
          endpoints = [\<lparr>dc_latency = 10, cache_latencies = [(7, 2)]\<rparr>],
          requests = [((4, 9), 3)]\<rparr>
   \<and> fst ` set (requests \<lparr>V = 1, E = 1, R = 1, C = 1, X = 10, video_sizes = [5],
          endpoints = [\<lparr>dc_latency = 10, cache_latencies = [(7, 2)]\<rparr>],
          requests = [((4, 9), 3)]\<rparr>) = {(4, 9)}"
proof -
  have sizes: "int (length [5 :: int]) = 1" by simp
  have eps: "int (length [(10 :: int, [(7 :: int, 2 :: int)])]) = 1" by simp
  have rs: "int (length [(9 :: int, 4 :: int, 3 :: int)]) = 1" by simp
  have f: "[[1, 1, 1, 1, 10], [5], [10, 1], [7, 2], [9, 4, 3]] =
      [1, 1, 1, 1, 10] # [5] # concat (map endpoint_lines [(10, [(7, 2)])]) @ map request_line [(9, 4, 3)] @ []"
    by (simp add: endpoint_lines_def request_line_def)
  from read_instance_no_range_check[OF sizes eps rs f]
  obtain d where d: "read_instance [[1, 1, 1, 1, 10], [5], [10, 1], [7, 2], [9, 4, 3]] = Inr d"
    and keys: "fst ` set (requests d) = (\<lambda>r. (fst (snd r), fst r)) ` set [(9 :: int, 4 :: int, 3 :: int)]"
    by blast
  have "read_instance [[1, 1, 1, 1, 10], [5], [10, 1], [7, 2], [9, 4, 3]] =
     Inr \<lparr>V = 1, E = 1, R = 1, C = 1, X = 10, video_sizes = [5],
          endpoints = [\<lparr>dc_latency = 10, cache_latencies = [(7, 2)]\<rparr>],
          requests = [((4, 9), 3)]\<rparr>"
    by (simp add: read_instance_def get0_def)
  with d keys show ?thesis by simp
qed

text \<open>
  C8 as stated fails: in this file, with \<open>V = E = C = 1\<close>, the cache line names cache 7
  and the request names video 9 and endpoint 4, and it is read without an exception.
\<close>

theorem out_of_range_indices_accepted:
  "read_instance [[1, 1, 1, 1, 10], [5], [10, 1], [7, 2], [9, 4, 3]] =
     Inr \<lparr>V = 1, E = 1, R = 1, C = 1, X = 10, video_sizes = [5],
          endpoints = [\<lparr>dc_latency = 10, cache_latencies = [(7, 2)]\<rparr>],
          requests = [((4, 9), 3)]\<rparr>"
  by (simp add: read_instance_def get0_def)

subsection \<open>The placement plan\<close>

lemma filter_err_Inr:
  "\<forall>x \<in> set xs. p x = Inr (q x) \<Longrightarrow> filter_err p xs = Inr (filter q xs)"
  by (induction xs) auto

lemma collect_caches_eq:
  assumes "\<forall>c \<in> set cs. filter_err (stored y xval c) (py_range nV) = Inr (vids c)"
    and "distinct cs" and "set cs \<inter> fst ` set ctv = {}"
  shows "collect_caches y xval nV cs ctv =
    Inr (ctv @ filter (\<lambda>p. snd p \<noteq> []) (map (\<lambda>c. (c, vids c)) cs))"
  using assms
proof (induction cs arbitrary: ctv)
  case Nil
  then show ?case by simp
next
  case (Cons c cs)
  from Cons.prems(1) have f: "filter_err (stored y xval c) (py_range nV) = Inr (vids c)"
    by simp
  from Cons.prems(3) have fresh: "c \<notin> fst ` set ctv" by auto
  let ?ctv = "if vids c \<noteq> [] then AList.update c (vids c) ctv else ctv"
  have upd: "?ctv = ctv @ (if vids c \<noteq> [] then [(c, vids c)] else [])"
    using fresh by (simp add: update_fresh)
  from Cons.prems(2,3) have "set cs \<inter> fst ` set ?ctv = {}"
    unfolding upd by auto
  moreover from Cons.prems have "\<forall>c \<in> set cs. filter_err (stored y xval c) (py_range nV) = Inr (vids c)"
    and "distinct cs"
    by simp_all
  ultimately have "collect_caches y xval nV cs ?ctv =
      Inr (?ctv @ filter (\<lambda>p. snd p \<noteq> []) (map (\<lambda>c. (c, vids c)) cs))"
    by (intro Cons.IH)
  then show ?case
    unfolding upd by (simp add: f upd)
qed

lemma stored_all:
  assumes "\<forall>v \<in> set vs. Y (v, c) \<in> set y"
  shows "filter_err (stored y xval c) vs = Inr (filter (\<lambda>v. 1 / 2 < xval (Y (v, c))) vs)"
proof (rule filter_err_Inr, rule ballI)
  fix v assume "v \<in> set vs"
  with assms have "Y (v, c) \<in> set y" by simp
  then show "stored y xval c v = Inr (1 / 2 < xval (Y (v, c)))"
    unfolding stored_def y_get_def by simp
qed

lemma plan_keys:
  "c \<in> fst ` set (filter (\<lambda>p. snd p \<noteq> []) (map (\<lambda>c. (c, g c)) cs)) \<longleftrightarrow> c \<in> set cs \<and> g c \<noteq> []"
  by (induction cs) auto

lemma plan_caches:
  "map fst (filter (\<lambda>p. snd p \<noteq> []) (map (\<lambda>c. (c, g c)) cs)) = filter (\<lambda>c. g c \<noteq> []) cs"
  by (induction cs) auto

lemma plan_entry:
  "(c, vs) \<in> set (filter (\<lambda>p. snd p \<noteq> []) (map (\<lambda>c. (c, g c)) cs)) \<Longrightarrow> vs = g c \<and> vs \<noteq> []"
  by auto

lemma digit_char_not_newline: "n < 10 \<Longrightarrow> digit_char n \<noteq> CHR ''\<newline>''"
proof -
  assume "n < 10"
  then have "digit_char n \<in> set ''0123456789''"
    unfolding digit_char_def by (intro nth_mem) simp
  then show ?thesis by auto
qed

lemma str_nat_no_newline: "CHR ''\<newline>'' \<notin> set (str_nat n)"
proof (induction n rule: str_nat.induct)
  case (1 n)
  show ?case
  proof (cases "n < 10")
    case True
    then show ?thesis
      by (subst str_nat.simps) (simp add: digit_char_not_newline[symmetric])
  next
    case False
    have "n mod 10 < 10" by simp
    from digit_char_not_newline[OF this] "1.IH"[OF False] False show ?thesis
      by (subst str_nat.simps) auto
  qed
qed

lemma str_int_no_newline: "CHR ''\<newline>'' \<notin> set (str_int i)"
  by (simp add: str_int_def str_nat_no_newline)

lemma sorted_py_range: "sorted_wrt (<) (py_range n)"
  by (simp add: py_range_def sorted_wrt_map)

text \<open>
  C6. Given the \<open>y\<close> variables of the instance (those \<^verbatim>\<open>build_model\<close> creates for it),
  \<^verbatim>\<open>write_solution\<close> raises no exception. Its plan \<^verbatim>\<open>cache_to_videos\<close> lists, for the
  caches \<open>c\<close> of \<open>[0,C)\<close> in ascending order, the videos \<open>v\<close> of \<open>[0,V)\<close> with
  \<open>y[v,c].X > 0.5\<close>, leaving out the caches with no such video. So a video is assigned
  to a cache of the plan exactly when its value is above \<open>0.5\<close>, each list is in
  strictly ascending order and not empty, and a cache is in the plan exactly when some
  video is assigned to it. The text written starts with the number of caches in the
  plan, which is its whole first line, followed by one line per cache of the plan.
\<close>

theorem placement_plan:
  assumes y: "\<forall>v c. 0 \<le> v \<and> v < V d \<and> 0 \<le> c \<and> c < C d \<longrightarrow> Y (v, c) \<in> set y"
    and plan: "plan = filter (\<lambda>p. snd p \<noteq> [])
        (map (\<lambda>c. (c, filter (\<lambda>v. 1 / 2 < xval (Y (v, c))) (py_range (V d)))) (py_range (C d)))"
  shows "cache_to_videos y xval d = Inr plan
    \<and> (\<forall>c vids. (c, vids) \<in> set plan \<longrightarrow>
          sorted_wrt (<) vids \<and> vids \<noteq> []
          \<and> (\<forall>v. v \<in> set vids \<longleftrightarrow> 0 \<le> v \<and> v < V d \<and> 1 / 2 < xval (Y (v, c))))
    \<and> sorted_wrt (<) (map fst plan)
    \<and> (\<forall>c. c \<in> fst ` set plan \<longleftrightarrow>
          0 \<le> c \<and> c < C d \<and> (\<exists>v. 0 \<le> v \<and> v < V d \<and> 1 / 2 < xval (Y (v, c))))
    \<and> write_solution y xval d =
         Inr (str_int (int (length plan)) @ ''\<newline>'' @ concat (map cache_line plan))
    \<and> (\<forall>out. write_solution y xval d = Inr out \<longrightarrow>
          takeWhile (\<lambda>ch. ch \<noteq> CHR ''\<newline>'') out = str_int (int (length plan)))"
proof -
  let ?vids = "\<lambda>c. filter (\<lambda>v. 1 / 2 < xval (Y (v, c))) (py_range (V d))"
  have "\<forall>c \<in> set (py_range (C d)). filter_err (stored y xval c) (py_range (V d)) = Inr (?vids c)"
  proof
    fix c assume "c \<in> set (py_range (C d))"
    with y have "\<forall>v \<in> set (py_range (V d)). Y (v, c) \<in> set y"
      by (simp add: py_range_mem)
    then show "filter_err (stored y xval c) (py_range (V d)) = Inr (?vids c)"
      by (rule stored_all)
  qed
  from collect_caches_eq[OF this distinct_py_range, of "[]"]
  have ctv: "cache_to_videos y xval d = Inr plan"
    unfolding cache_to_videos_def plan by simp
  have lists: "\<forall>c vids. (c, vids) \<in> set plan \<longrightarrow>
          sorted_wrt (<) vids \<and> vids \<noteq> []
          \<and> (\<forall>v. v \<in> set vids \<longleftrightarrow> 0 \<le> v \<and> v < V d \<and> 1 / 2 < xval (Y (v, c)))"
  proof (intro allI impI)
    fix c vids assume "(c, vids) \<in> set plan"
    then have v: "vids = ?vids c" and ne: "vids \<noteq> []"
      unfolding plan by (auto dest: plan_entry)
    have s: "sorted_wrt (<) (?vids c)"
      by (rule sorted_wrt_filter) (rule sorted_py_range)
    have "v \<in> set (?vids c) \<longleftrightarrow> 0 \<le> v \<and> v < V d \<and> 1 / 2 < xval (Y (v, c))" for v
      unfolding set_filter py_range_mem by blast
    with v ne s show "sorted_wrt (<) vids \<and> vids \<noteq> []
          \<and> (\<forall>v. v \<in> set vids \<longleftrightarrow> 0 \<le> v \<and> v < V d \<and> 1 / 2 < xval (Y (v, c)))"
      by blast
  qed
  have order: "sorted_wrt (<) (map fst plan)"
    unfolding plan plan_caches by (rule sorted_wrt_filter) (rule sorted_py_range)
  have caches: "\<forall>c. c \<in> fst ` set plan \<longleftrightarrow>
          0 \<le> c \<and> c < C d \<and> (\<exists>v. 0 \<le> v \<and> v < V d \<and> 1 / 2 < xval (Y (v, c)))"
  proof
    fix c
    have a: "c \<in> fst ` set plan \<longleftrightarrow> c \<in> set (py_range (C d)) \<and> ?vids c \<noteq> []"
      unfolding plan by (rule plan_keys)
    have b: "?vids c \<noteq> [] \<longleftrightarrow> (\<exists>v. 0 \<le> v \<and> v < V d \<and> 1 / 2 < xval (Y (v, c)))"
      by (auto simp only: filter_empty_conv py_range_mem)
    show "c \<in> fst ` set plan \<longleftrightarrow>
          0 \<le> c \<and> c < C d \<and> (\<exists>v. 0 \<le> v \<and> v < V d \<and> 1 / 2 < xval (Y (v, c)))"
      by (simp only: a b py_range_mem conj_assoc)
  qed
  have ws: "write_solution y xval d =
         Inr (str_int (int (length plan)) @ ''\<newline>'' @ concat (map cache_line plan))"
    by (simp add: write_solution_def ctv)
  have first: "\<forall>out. write_solution y xval d = Inr out \<longrightarrow>
          takeWhile (\<lambda>ch. ch \<noteq> CHR ''\<newline>'') out = str_int (int (length plan))"
  proof (intro allI impI)
    fix out assume "write_solution y xval d = Inr out"
    with ws have out: "out = str_int (int (length plan)) @ CHR ''\<newline>'' # concat (map cache_line plan)"
      by simp
    have "\<forall>ch \<in> set (str_int (int (length plan))). ch \<noteq> CHR ''\<newline>''"
      using str_int_no_newline[of "int (length plan)"] by blast
    then show "takeWhile (\<lambda>ch. ch \<noteq> CHR ''\<newline>'') out = str_int (int (length plan))"
      unfolding out by (simp add: takeWhile_tail)
  qed
  show ?thesis
    by (intro conjI) (rule ctv, rule lists, rule order, rule caches, rule ws, rule first)
qed

lemma y_vars_complete:
  assumes "build_model d = Inr m"
  shows "\<forall>v c. 0 \<le> v \<and> v < V d \<and> 0 \<le> c \<and> c < C d \<longrightarrow> Y (v, c) \<in> set (y_vars m)"
proof -
  from assms obtain s where
    "scan_requests (endpoints d) (requests d) \<lparr>z_keys = [], z_gain = [], ev_to_caches = []\<rparr> = Inr s"
    and yv: "y_vars m = map Y (List.product (py_range (V d)) (py_range (C d)))"
    by (rule build_model_parts)
  show ?thesis by (auto simp: yv py_range_mem)
qed

lemma str_nat_digit: "n < 10 \<Longrightarrow> str_nat n = [digit_char n]"
  by (subst str_nat.simps) simp

theorem placement_plan_witness:
  "cache_to_videos (y_vars example_model) example_values example_data = Inr [(0, [0, 2])]
   \<and> write_solution (y_vars example_model) example_values example_data = Inr ''1\<newline>0 0 2\<newline>''"
proof -
  have plan: "[(0, [0, 2])] = filter (\<lambda>p. snd p \<noteq> [])
      (map (\<lambda>c. (c, filter (\<lambda>v. 1 / 2 < example_values (Y (v, c))) (py_range (V example_data))))
         (py_range (C example_data)))"
    by (simp add: example_data_def py_range_simps example_values_def)
  note th = placement_plan[OF y_vars_complete[OF build_example] plan]
  from th[THEN conjunct1]
  have "cache_to_videos (y_vars example_model) example_values example_data = Inr [(0, [0, 2])]" .
  moreover from th[THEN conjunct2, THEN conjunct2, THEN conjunct2, THEN conjunct2, THEN conjunct1]
  have "write_solution (y_vars example_model) example_values example_data = Inr ''1\<newline>0 0 2\<newline>''"
    by (simp add: cache_line_def str_int_def str_nat_digit digit_char_def)
  ultimately show ?thesis by simp
qed

subsection \<open>Degenerate instances\<close>

lemma product_empty: "List.product xs [] = []"
  by (induction xs) simp_all

lemma collect_caches_no_videos: "nV \<le> 0 \<Longrightarrow> collect_caches y xval nV cs ctv = Inr ctv"
  by (induction cs arbitrary: ctv) (simp_all add: py_range_def)

lemma write_solution_degenerate:
  assumes "V d = 0 \<or> C d = 0"
  shows "write_solution y xval d = Inr ''0\<newline>''"
proof -
  have "cache_to_videos y xval d = Inr []"
    using assms
    by (auto simp: cache_to_videos_def collect_caches_no_videos) (simp add: py_range_def)
  then show ?thesis
    by (simp add: write_solution_def str_int_def str_nat_digit digit_char_def)
qed

lemma degenerate_caps:
  assumes "V d = 0 \<or> C d = 0"
  shows "map_err (cap_constr d y) (py_range (C d)) = Inr (map (\<lambda>c. Cap_cache c [] (X d)) (py_range (C d)))"
proof (cases "V d = 0")
  case True
  then have "\<forall>c \<in> set (py_range (C d)). cap_constr d y c = Inr (Cap_cache c [] (X d))"
    by (simp add: cap_constr_def py_range_def)
  then show ?thesis by (rule map_err_Inr)
next
  case False
  with assms have "py_range (C d) = []" by (simp add: py_range_def)
  then show ?thesis by simp
qed

text \<open>
  C7, as the code has it. \<^verbatim>\<open>build_model\<close> does not test \<open>V\<close> or \<open>C\<close>. On an instance with
  \<open>V = 0\<close> or \<open>C = 0\<close> and no requests it returns a model: no variables, an empty
  objective, and one capacity constraint with an empty sum for each cache. Whenever it
  returns a model for such an instance, the model has no \<open>y\<close> and no \<open>z\<close> variables,
  \<^verbatim>\<open>main\<close> passes it to the solver, and unless the solver reports no solution the output
  file is written and consists of the line \<open>0\<close>.
\<close>

theorem degenerate_instance:
  assumes deg: "V d = 0 \<or> C d = 0"
  shows "(requests d = [] \<longrightarrow>
            build_model d = Inr \<lparr>y_vars = [], z_vars = [],
              constrs = map (\<lambda>c. Cap_cache c [] (X d)) (py_range (C d)),
              objective = [], sense = MAXIMIZE\<rparr>)
    \<and> (\<forall>m f solver. read_instance f = Inr d \<longrightarrow> build_model d = Inr m \<longrightarrow>
          y_vars m = [] \<and> z_vars m = []
          \<and> main solver f = Inr \<lparr>videos_mps = m,
               videos_out = (if SolCount (solver m) = 0 then None else Some ''0\<newline>'')\<rparr>)"
proof -
  from deg have prod: "List.product (py_range (V d)) (py_range (C d)) = []"
    by (auto simp: py_range_def product_empty)
  have first: "build_model d = Inr \<lparr>y_vars = [], z_vars = [],
              constrs = map (\<lambda>c. Cap_cache c [] (X d)) (py_range (C d)),
              objective = [], sense = MAXIMIZE\<rparr>" if "requests d = []"
    unfolding build_model_def prod using that by (simp add: degenerate_caps[OF deg])
  have second: "y_vars m = [] \<and> z_vars m = []
          \<and> main solver f = Inr \<lparr>videos_mps = m,
               videos_out = (if SolCount (solver m) = 0 then None else Some ''0\<newline>'')\<rparr>"
    if rd: "read_instance f = Inr d" and build: "build_model d = Inr m" for m f solver
  proof -
    from build obtain s where
      "scan_requests (endpoints d) (requests d) \<lparr>z_keys = [], z_gain = [], ev_to_caches = []\<rparr> = Inr s"
      and yv: "y_vars m = map Y (List.product (py_range (V d)) (py_range (C d)))"
      and zv: "z_vars m = map Z (z_keys s)"
      and "constrs m = map (cap_of d) (py_range (C d)) @ map link_of (z_keys s) @ map unique_of (ev_to_caches s)"
      and "objective m = map (\<lambda>k. (the (map_of (z_gain s) k), Z k)) (z_keys s)"
      and "sense m = MAXIMIZE"
      and ys: "\<forall>k \<in> set (z_keys s). Y (snd k) \<in> set (y_vars m)"
      by (rule build_model_parts)
    from yv prod have y: "y_vars m = []" by simp
    have "z_keys s = []"
    proof (cases "z_keys s")
      case Nil
      then show ?thesis .
    next
      case (Cons k ks)
      with ys have "Y (snd k) \<in> set (y_vars m)" by simp
      with y show ?thesis by simp
    qed
    with zv have z: "z_vars m = []" by simp
    have "main solver f = Inr \<lparr>videos_mps = m,
               videos_out = (if SolCount (solver m) = 0 then None else Some ''0\<newline>'')\<rparr>"
      unfolding main_def by (simp add: rd build Let_def write_solution_degenerate[OF deg])
    with y z show ?thesis by simp
  qed
  from first second show ?thesis by blast
qed

lemma read_degenerate:
  "read_instance [[0, 0, 0, 0, 10], []] =
     Inr \<lparr>V = 0, E = 0, R = 0, C = 0, X = 10, video_sizes = [], endpoints = [], requests = []\<rparr>"
  by (simp add: read_instance_def)

theorem degenerate_instance_witness:
  "build_model \<lparr>V = 0, E = 0, R = 0, C = 0, X = 10, video_sizes = [], endpoints = [], requests = []\<rparr>
     = Inr \<lparr>y_vars = [], z_vars = [], constrs = [], objective = [], sense = MAXIMIZE\<rparr>
   \<and> main solver_all_zero [[0, 0, 0, 0, 10], []] =
       Inr \<lparr>videos_mps = \<lparr>y_vars = [], z_vars = [], constrs = [], objective = [], sense = MAXIMIZE\<rparr>,
            videos_out = Some ''0\<newline>''\<rparr>"
proof -
  let ?d = "\<lparr>V = 0, E = 0, R = 0, C = 0, X = 10, video_sizes = [], endpoints = [], requests = []\<rparr>"
  let ?m = "\<lparr>y_vars = [], z_vars = [], constrs = [], objective = [], sense = MAXIMIZE\<rparr>"
  have deg: "V ?d = 0 \<or> C ?d = 0" by simp
  note th = degenerate_instance[OF deg]
  from th[THEN conjunct1] have build: "build_model ?d = Inr ?m"
    by (simp add: py_range_simps)
  from th[THEN conjunct2, rule_format, OF read_degenerate build, of solver_all_zero]
  have "main solver_all_zero [[0, 0, 0, 0, 10], []] = Inr \<lparr>videos_mps = ?m, videos_out = Some ''0\<newline>''\<rparr>"
    by (simp add: solver_all_zero_def)
  with build show ?thesis by simp
qed

text \<open>
  C7 as stated fails: for the file with \<open>V = 0\<close> and \<open>C = 0\<close>, \<^verbatim>\<open>build_model\<close> returns the
  empty model, and with a solver that reports a solution the run writes the output
  file.
\<close>

theorem degenerate_instance_builds_and_writes:
  "read_instance [[0, 0, 0, 0, 10], []] =
     Inr \<lparr>V = 0, E = 0, R = 0, C = 0, X = 10, video_sizes = [], endpoints = [], requests = []\<rparr>
   \<and> build_model \<lparr>V = 0, E = 0, R = 0, C = 0, X = 10, video_sizes = [], endpoints = [], requests = []\<rparr>
     = Inr \<lparr>y_vars = [], z_vars = [], constrs = [], objective = [], sense = MAXIMIZE\<rparr>
   \<and> main solver_all_zero [[0, 0, 0, 0, 10], []] =
       Inr \<lparr>videos_mps = \<lparr>y_vars = [], z_vars = [], constrs = [], objective = [], sense = MAXIMIZE\<rparr>,
            videos_out = Some ''0\<newline>''\<rparr>"
proof -
  have b: "build_model \<lparr>V = 0, E = 0, R = 0, C = 0, X = 10, video_sizes = [], endpoints = [], requests = []\<rparr>
     = Inr \<lparr>y_vars = [], z_vars = [], constrs = [], objective = [], sense = MAXIMIZE\<rparr>"
    by (simp add: build_model_def py_range_simps)
  have w: "write_solution [] all_zero
      \<lparr>V = 0, E = 0, R = 0, C = 0, X = 10, video_sizes = [], endpoints = [], requests = []\<rparr> = Inr ''0\<newline>''"
    by (simp add: write_solution_def cache_to_videos_def py_range_simps str_int_def str_nat_digit digit_char_def)
  show ?thesis
    by (simp add: read_degenerate b main_def w solver_all_zero_def)
qed

subsection \<open>No solution found\<close>

text \<open>
  C9, as the code has it. When the instance is read, the model is built and the solver
  reports no solution, \<^verbatim>\<open>main\<close> returns normally: no exception is raised. The model has
  been written to \<^verbatim>\<open>videos.mps\<close> before optimizing; \<^verbatim>\<open>videos.out\<close> is not written.
\<close>

theorem no_solution_no_output:
  assumes "read_instance f = Inr d" and "build_model d = Inr m" and "SolCount (solver m) = 0"
  shows "main solver f = Inr \<lparr>videos_mps = m, videos_out = None\<rparr>"
  using assms by (simp add: main_def)

theorem no_solution_no_output_witness:
  "SolCount (solver_no_solution example_model) = 0
   \<and> main solver_no_solution example_file = Inr \<lparr>videos_mps = example_model, videos_out = None\<rparr>"
proof -
  have s: "SolCount (solver_no_solution example_model) = 0"
    by (simp add: solver_no_solution_def)
  from no_solution_no_output[of example_file example_data example_model solver_no_solution,
      OF read_example build_example s] s
  show ?thesis by simp
qed

text \<open>
  C9 as stated fails in its first part: with a solver that reports no solution the run
  on the small instance does not end in an exception. It returns, with the model file
  written and no output file.
\<close>

theorem no_solution_returns_normally:
  "main solver_no_solution example_file = Inr \<lparr>videos_mps = example_model, videos_out = None\<rparr>"
  by (simp add: main_def read_example build_example solver_no_solution_def)

subsection \<open>When the model is built\<close>

lemma scan_requests_total:
  "\<forall>r \<in> set rq. \<exists>ep. py_index eps (fst (fst r)) = Inr ep \<Longrightarrow> \<exists>s'. scan_requests eps rq s = Inr s'"
proof (induction rq arbitrary: s)
  case Nil
  then show ?case by simp
next
  case (Cons r rq)
  obtain e v n where r: "r = ((e, v), n)" by (cases r) auto
  with Cons.prems obtain ep where "py_index eps e = Inr ep" by auto
  with Cons r show ?case by simp
qed

lemma py_index_total:
  "- int (length xs) \<le> i \<Longrightarrow> i < int (length xs) \<Longrightarrow> \<exists>x. py_index xs i = Inr x"
  by (simp add: py_index_def)

text \<open>
  \<^verbatim>\<open>build_model\<close> returns a model for every instance whose indices are in range: each
  request names an endpoint that \<^verbatim>\<open>endpoints[e]\<close> accepts and a video of \<open>[0,V)\<close>, each
  cache of an endpoint is in \<open>[0,C)\<close>, and there are at least \<open>V\<close> sizes. (Outside these
  ranges it raises IndexError or KeyError, or reads an endpoint from the end of the
  list when \<open>e\<close> is negative.)
\<close>

lemma build_model_total:
  assumes e: "\<forall>r \<in> set (requests d). - int (length (endpoints d)) \<le> fst (fst r)
                \<and> fst (fst r) < int (length (endpoints d))"
    and v: "\<forall>r \<in> set (requests d). 0 \<le> snd (fst r) \<and> snd (fst r) < V d"
    and c: "\<forall>ep \<in> set (endpoints d). \<forall>p \<in> set (cache_latencies ep). 0 \<le> fst p \<and> fst p < C d"
    and sizes: "V d \<le> int (length (video_sizes d))"
    and rq: "distinct (map fst (requests d))"
    and cl: "\<forall>ep \<in> set (endpoints d). distinct (map fst (cache_latencies ep))"
  shows "\<exists>m. build_model d = Inr m"
proof -
  let ?eps = "endpoints d"
  let ?y = "map Y (List.product (py_range (V d)) (py_range (C d)))"
  from e have "\<forall>r \<in> set (requests d). \<exists>ep. py_index ?eps (fst (fst r)) = Inr ep"
    by (simp add: py_index_total)
  from scan_requests_total[OF this] obtain s where
    s: "scan_requests ?eps (requests d) \<lparr>z_keys = [], z_gain = [], ev_to_caches = []\<rparr> = Inr s"
    by blast
  let ?z = "map Z (z_keys s)"
  have zk: "z_keys s = concat (map (req_keys ?eps) (requests d))"
    using scan_requests_z_keys[OF s] by simp
  have zg: "z_gain s = concat (map (req_gains ?eps) (requests d))"
    using scan_requests_z_gain[OF s rq cl] by simp
  have ev: "ev_to_caches s = concat (map (req_caches ?eps) (requests d))"
    using scan_requests_ev[OF s rq] by simp
  have ykey: "Y (snd k) \<in> set ?y" if "k \<in> set (z_keys s)" for k
  proof -
    from that obtain r where r: "r \<in> set (requests d)" and k: "k \<in> set (req_keys ?eps r)"
      unfolding zk by auto
    from k obtain ep c' lat where "py_index ?eps (fst (fst r)) = Inr ep"
      "(c', lat) \<in> set (cache_latencies ep)" "k = (fst (fst r), snd (fst r), c')"
      unfolding req_keys_mem by blast
    moreover from this c have "0 \<le> c' \<and> c' < C d"
      by (force dest: py_index_mem)
    moreover from r v have "0 \<le> snd (fst r) \<and> snd (fst r) < V d" by simp
    ultimately show ?thesis by (simp add: py_range_mem)
  qed
  have "\<forall>c \<in> set (py_range (C d)). cap_constr d ?y c = Inr (cap_of d c)"
  proof
    fix c assume c: "c \<in> set (py_range (C d))"
    have "\<forall>v \<in> set (py_range (V d)). cap_term (video_sizes d) ?y c v = Inr (video_sizes d ! nat v, Y (v, c))"
      using sizes c by (auto simp: cap_term_def py_index_def y_get_def py_range_mem)
    then have "map_err (cap_term (video_sizes d) ?y c) (py_range (V d))
        = Inr (map (\<lambda>v. (video_sizes d ! nat v, Y (v, c))) (py_range (V d)))"
      by (rule map_err_Inr)
    then show "cap_constr d ?y c = Inr (cap_of d c)"
      by (simp add: cap_constr_def cap_of_def)
  qed
  then have caps: "map_err (cap_constr d ?y) (py_range (C d)) = Inr (map (cap_of d) (py_range (C d)))"
    by (rule map_err_Inr)
  have "\<forall>k \<in> set (z_keys s). link_constr ?y ?z k = Inr (link_of k)"
  proof
    fix k assume k: "k \<in> set (z_keys s)"
    then have "Z k \<in> set ?z" by simp
    moreover from ykey[OF k] have "Y (snd k) \<in> set ?y" .
    ultimately show "link_constr ?y ?z k = Inr (link_of k)"
      unfolding link_constr_def link_of_def z_get_def y_get_def
      by (cases k) (simp del: set_map)
  qed
  then have links: "map_err (link_constr ?y ?z) (z_keys s) = Inr (map link_of (z_keys s))"
    by (rule map_err_Inr)
  have "\<forall>p \<in> set (ev_to_caches s). unique_constr ?z p = Inr (unique_of p)"
  proof
    fix p assume "p \<in> set (ev_to_caches s)"
    then obtain r where r: "r \<in> set (requests d)" and p: "p \<in> set (req_caches ?eps r)"
      unfolding ev by auto
    from req_caches_mem[OF p] r
    have "\<forall>c \<in> set (snd p). (fst (fst p), snd (fst p), c) \<in> set (z_keys s)"
      unfolding zk by auto
    then have "\<forall>c \<in> set (snd p). unique_term ?z (fst p) c = Inr (1, Z (fst (fst p), snd (fst p), c))"
      by (simp add: unique_term_def z_get_def)
    then have "map_err (unique_term ?z (fst p)) (snd p)
        = Inr (map (\<lambda>c. (1, Z (fst (fst p), snd (fst p), c))) (snd p))"
      by (rule map_err_Inr)
    then show "unique_constr ?z p = Inr (unique_of p)"
      by (simp add: unique_constr_def unique_of_def)
  qed
  then have uniques: "map_err (unique_constr ?z) (ev_to_caches s) = Inr (map unique_of (ev_to_caches s))"
    by (rule map_err_Inr)
  have keys: "map fst (z_gain s) = z_keys s"
    by (simp only: zg zk map_fst_concat_req_gains)
  have "\<forall>k \<in> set (z_keys s). obj_term (z_gain s) ?z k = Inr (the (map_of (z_gain s) k), Z k)"
  proof
    fix k assume k: "k \<in> set (z_keys s)"
    then have "k \<in> fst ` set (z_gain s)" by (simp only: keys[symmetric] set_map)
    then have "map_of (z_gain s) k \<noteq> None"
      by (simp only: map_of_eq_None_iff not_not)
    then obtain g where "map_of (z_gain s) k = Some g"
      by blast
    with k show "obj_term (z_gain s) ?z k = Inr (the (map_of (z_gain s) k), Z k)"
      by (simp add: obj_term_def dict_get_def z_get_def)
  qed
  then have obj: "map_err (obj_term (z_gain s) ?z) (z_keys s)
      = Inr (map (\<lambda>k. (the (map_of (z_gain s) k), Z k)) (z_keys s))"
    by (rule map_err_Inr)
  show ?thesis
    unfolding build_model_def Let_def by (simp add: s caps links uniques obj)
qed

lemma build_example_total: "\<exists>m. build_model example_data = Inr m"
  by (rule build_model_total) (simp_all add: example_data_def)

end
